theory Spec2Isabelle
  imports Main
begin

section \<open>JavaScript values and objects\<close>

text \<open>
  The engine treats facet payloads as opaque values. It inspects them in three ways only:
  it converts \<open>e.id\<close> and \<open>e.name\<close> to strings (property keys and template literals), it
  tests \<open>KEY in data\<close>, and it compares the processed result with \<open>undefined\<close>.
  Numbers (IEEE doubles) are not part of the value type. An object is the list of its own
  properties; the members it inherits from \<open>Object.prototype\<close> are brought in where the
  ids of the input records meet them, in the first loop of \<open>resolveEntities\<close>
  (\<open>first_loop\<close>, \<open>error_call\<close>, \<open>resolveEntities_call\<close>). The keys of components are taken
  not to name such a member.
\<close>

datatype jsval =
    VUndefined
  | VNull
  | VBool bool
  | VStr string
  | VArr "jsval list"
  | VObj "(string \<times> jsval) list"

fun join_with :: "string \<Rightarrow> string list \<Rightarrow> string" where
  "join_with sep [] = []"
| "join_with sep [x] = x"
| "join_with sep (x # y # ys) = x @ sep @ join_with sep (y # ys)"

text \<open>ToString of the language: what a template literal and a property access apply.\<close>

fun to_string :: "jsval \<Rightarrow> string" where
  "to_string VUndefined = ''undefined''"
| "to_string VNull = ''null''"
| "to_string (VBool b) = (if b then ''true'' else ''false'')"
| "to_string (VStr s) = s"
| "to_string (VArr xs) =
     join_with '','' (map (\<lambda>x. if x = VUndefined \<or> x = VNull then [] else to_string x) xs)"
| "to_string (VObj ps) = ''[object Object]''"

text \<open>
  An object is an association list in the order in which \<open>for ... in\<close> and
  \<open>Object.entries\<close> enumerate it: array-index keys first, in ascending numeric order, then
  the other keys in insertion order.
\<close>

type_synonym 'v jsobj = "(string \<times> 'v) list"

definition is_digit :: "char \<Rightarrow> bool" where
  "is_digit c \<longleftrightarrow> c \<in> set ''0123456789''"

definition digit_val :: "char \<Rightarrow> nat" where
  "digit_val c = of_char c - 48"

definition index_val :: "string \<Rightarrow> nat" where
  "index_val s = foldl (\<lambda>n c. 10 * n + digit_val c) 0 s"

text \<open>An array index is the canonical decimal form of an integer below \<open>2^32 - 1\<close>.\<close>

definition is_index :: "string \<Rightarrow> bool" where
  "is_index s \<longleftrightarrow>
     s \<noteq> [] \<and> list_all is_digit s \<and> (hd s = CHR ''0'' \<longrightarrow> s = ''0'') \<and>
     index_val s < 4294967295"

definition obj_has :: "'v jsobj \<Rightarrow> string \<Rightarrow> bool" where
  "obj_has ob k \<longleftrightarrow> k \<in> set (map fst ob)"

definition obj_get :: "'v jsobj \<Rightarrow> string \<Rightarrow> 'v option" where
  "obj_get ob k = map_of ob k"

text \<open>Mutating the value held under a key that the object has leaves the order alone.\<close>

definition obj_upd :: "'v jsobj \<Rightarrow> string \<Rightarrow> 'v \<Rightarrow> 'v jsobj" where
  "obj_upd ob k v = map (\<lambda>p. if fst p = k then (k, v) else p) ob"

definition comes_before :: "string \<Rightarrow> string \<times> 'v \<Rightarrow> bool" where
  "comes_before k p \<longleftrightarrow> is_index (fst p) \<and> index_val (fst p) < index_val k"

definition obj_insert :: "'v jsobj \<Rightarrow> string \<Rightarrow> 'v \<Rightarrow> 'v jsobj" where
  "obj_insert ob k v =
     (if is_index k
      then takeWhile (comes_before k) ob @ (k, v) # dropWhile (comes_before k) ob
      else ob @ [(k, v)])"

definition obj_set :: "'v jsobj \<Rightarrow> string \<Rightarrow> 'v \<Rightarrow> 'v jsobj" where
  "obj_set ob k v = (if obj_has ob k then obj_upd ob k v else obj_insert ob k v)"

definition obj_delete :: "'v jsobj \<Rightarrow> string \<Rightarrow> 'v jsobj" where
  "obj_delete ob k = filter (\<lambda>p. fst p \<noteq> k) ob"

definition keys :: "'v jsobj \<Rightarrow> string list" where
  "keys ob = map fst ob"

section \<open>Data model (src/schema/index.ts, src/component.ts)\<close>

type_synonym EntityData = "jsval jsobj"
type_synonym EntityMap = "EntityData jsobj"
type_synonym Entity = "jsval jsobj"
type_synonym Manifest = "Entity jsobj"
type_synonym ErrorMap = "string list jsobj"
type_synonym Passed = "string list jsobj"

text \<open>The declarative fields of a component; an optional field is \<open>None\<close> when left out.\<close>

record ComponentInfo =
  KEY :: string
  REQUIRES :: "string list option"
  OPTIONAL :: "string list option"
  SUPPRESS_TYPE :: "bool option"
  HOIST :: "bool option"
  SINK :: "bool option"
  WAIT_FOR :: "string list option"

text \<open>
  \<open>Component.Context\<close>. \<open>data\<close> is \<open>d[k]\<close>, \<open>None\<close> standing for \<open>undefined\<close>.
  \<open>components\<close> carries the declarative fields of the ordered components (a hook receiving
  the hooks of all components, itself included, has no type in HOL).
\<close>

record Context =
  entities :: EntityMap
  manifest :: Manifest
  passed :: Passed
  parent :: Entity
  ctx_id :: string
  data :: "EntityData option"
  components :: "ComponentInfo list"

text \<open>
  The four optional hooks. A hook that throws returns \<open>Inl\<close> of the thrown value's
  \<open>toString()\<close>. Hooks read the context; \<open>transform\<close> returns the new state of the parent
  entity, which is the one thing a hook is documented to modify.
\<close>

record Component = ComponentInfo +
  trigger :: "(Context \<Rightarrow> string + bool) option"
  getData :: "(Context \<Rightarrow> string + jsval) option"
  process :: "(jsval \<Rightarrow> Context \<Rightarrow> string + jsval) option"
  transform :: "(jsval \<Rightarrow> Context \<Rightarrow> string + Entity) option"

section \<open>Component.dependencies and Component.all\<close>

text \<open>\<open>x || []\<close> on an optional array, and the truth value of an optional flag.\<close>

definition or_empty :: "'a list option \<Rightarrow> 'a list" where
  "or_empty x = (case x of None \<Rightarrow> [] | Some xs \<Rightarrow> xs)"

definition truthy :: "bool option \<Rightarrow> bool" where
  "truthy x = (case x of None \<Rightarrow> False | Some b \<Rightarrow> b)"

text \<open>\<open>Array.from(new Set(xs))\<close>: the first occurrence of each element, in order.\<close>

definition uniq :: "'a list \<Rightarrow> 'a list" where
  "uniq xs = rev (remdups (rev xs))"

definition dependencies :: "Component list \<Rightarrow> Component \<Rightarrow> string list" where
  "dependencies list c =
     (let wait_for = or_empty (WAIT_FOR c);
          requires = or_empty (REQUIRES c);
          hoists = (if truthy (HOIST c) then []
                    else map KEY (filter (\<lambda>c. truthy (HOIST c)) list));
          sinks = (if truthy (SINK c)
                   then map KEY (filter (\<lambda>c. \<not> truthy (SINK c)) list)
                   else [])
      in uniq (wait_for @ requires @ hoists @ sinks))"

record NodeDep =
  node :: Component
  dep :: "string list"

text \<open>
  The \<open>for (var m of _list)\<close> loop of one round: the first occurrence of the key is spliced
  out of every dependency array that has it; the entries emptied by that are returned in
  the order in which they are pushed onto \<open>no_edges\<close>.
\<close>

fun remove_dep :: "string \<Rightarrow> NodeDep list \<Rightarrow> NodeDep list \<times> NodeDep list" where
  "remove_dep key [] = ([], [])"
| "remove_dep key (m # ms) =
     (let (ms', pushed) = remove_dep key ms in
      if key \<in> set (dep m)
      then (let m' = m\<lparr>dep := remove1 key (dep m)\<rparr>
            in (m' # ms', (if dep m' = [] then m' # pushed else pushed)))
      else (m # ms', pushed))"

definition dep_total :: "NodeDep list \<Rightarrow> nat" where
  "dep_total l = sum_list (map (\<lambda>m. length (dep m)) l)"

lemma remove_dep_measure:
  "remove_dep key l = (l', pushed) \<Longrightarrow> dep_total l' + length pushed \<le> dep_total l"
proof (induction l arbitrary: l' pushed)
  case Nil
  then show ?case by (simp add: dep_total_def)
next
  case (Cons m ms)
  obtain ms' p where r: "remove_dep key ms = (ms', p)" by (cases "remove_dep key ms")
  from Cons.IH [OF r] have ih: "dep_total ms' + length p \<le> dep_total ms" .
  show ?case
  proof (cases "key \<in> set (dep m)")
    case True
    then have "Suc (length (remove1 key (dep m))) = length (dep m)"
      by (simp add: length_remove1) (cases "dep m"; simp)
    with Cons.prems r ih True show ?thesis
      by (auto simp: dep_total_def Let_def split: if_splits)
  next
    case False
    with Cons.prems r ih show ?thesis
      by (auto simp: dep_total_def)
  qed
qed

text \<open>
  The \<open>while (no_edges.length > 0)\<close> loop: pop the last entry, append it to \<open>out\<close>, remove
  its key from the dependency arrays, push the entries that became free.
\<close>

function sort_loop :: "NodeDep list \<Rightarrow> NodeDep list \<Rightarrow> NodeDep list \<Rightarrow> NodeDep list" where
  "sort_loop l no_edges out =
     (if no_edges = [] then out
      else (let n = last no_edges;
                r = remove_dep (KEY (node n)) l
            in sort_loop (fst r) (butlast no_edges @ snd r) (out @ [n])))"
  by pat_completeness auto
termination
proof (relation "measure (\<lambda>(l, no_edges, out). dep_total l + length no_edges)")
  show "wf (measure (\<lambda>(l, no_edges, out). dep_total l + length no_edges))" by simp
next
  fix l no_edges :: "NodeDep list" and out :: "NodeDep list" and n r
  assume ne: "no_edges \<noteq> []" and "n = last no_edges" and r: "r = remove_dep (KEY (node n)) l"
  have "dep_total (fst r) + length (snd r) \<le> dep_total l"
    using remove_dep_measure [of "KEY (node n)" l "fst r" "snd r"] r by simp
  moreover have "length (butlast no_edges) < length no_edges" using ne by simp
  ultimately have "dep_total (fst r) + length (butlast no_edges @ snd r)
      < dep_total l + length no_edges"
    unfolding length_append by linarith
  then show "((fst r, butlast no_edges @ snd r, out @ [n]), (l, no_edges, out))
      \<in> measure (\<lambda>(l, no_edges, out). dep_total l + length no_edges)"
    by simp
qed

declare sort_loop.simps [simp del]

definition Component_all :: "Component list \<Rightarrow> Component list" where
  "Component_all list =
     (let l = map (\<lambda>c. \<lparr>node = c, dep = dependencies list c\<rparr>) list;
          no_edges = filter (\<lambda>c. dep c = []) l
      in map node (sort_loop l no_edges []))"

section \<open>The error sink (src/schema/index.ts)\<close>

text \<open>
  The module-level variable \<open>errors\<close> is threaded through explicitly. The argument of
  \<open>error\<close> is one description or an array of them; descriptions are held as strings
  (an \<open>Error\<close> instance is replaced by its \<open>toString()\<close>). \<open>error\<close> is the function on keys
  that name no member of \<open>Object.prototype\<close>; \<open>error_call\<close> below covers every key.
\<close>

datatype errarg = Single string | Several "string list"

definition error :: "string \<Rightarrow> errarg \<Rightarrow> ErrorMap \<Rightarrow> ErrorMap" where
  "error key err errors =
     (let errors1 = (if obj_get errors key = None then obj_set errors key [] else errors);
          errs = (case err of Single e \<Rightarrow> [e] | Several es \<Rightarrow> es)
      in obj_set errors1 key (or_empty (obj_get errors1 key) @ errs))"


section \<open>Component.resolve\<close>

text \<open>
  What the run-time throws when a property of \<open>undefined\<close> is read, and when \<open>in\<close> is
  applied to \<open>undefined\<close>, after \<open>toString()\<close> (the wording of Node 14, the target of the
  repository's compiler configuration).
\<close>

definition cannot_read :: "string \<Rightarrow> string" where
  "cannot_read p =
     ''TypeError: Cannot read property '' @ [CHR 0x27] @ p @ [CHR 0x27] @ '' of undefined''"

definition cannot_search :: "string \<Rightarrow> string" where
  "cannot_search k =
     ''TypeError: Cannot use '' @ [CHR 0x27] @ ''in'' @ [CHR 0x27] @
     '' operator to search for '' @ [CHR 0x27] @ k @ [CHR 0x27] @ '' in undefined''"

text \<open>Reading a property: \<open>undefined\<close> when the object does not have it.\<close>

definition js_prop :: "jsval jsobj \<Rightarrow> string \<Rightarrow> jsval" where
  "js_prop ob k = (case obj_get ob k of None \<Rightarrow> VUndefined | Some v \<Rightarrow> v)"

definition trigger_of :: "Component \<Rightarrow> Context \<Rightarrow> string + bool" where
  "trigger_of c =
     (case trigger c of
        Some t \<Rightarrow> t
      | None \<Rightarrow> (\<lambda>ctx. case data ctx of
                         None \<Rightarrow> Inl (cannot_search (KEY c))
                       | Some d \<Rightarrow> Inr (obj_has d (KEY c))))"

definition getData_of :: "Component \<Rightarrow> Context \<Rightarrow> string + jsval" where
  "getData_of c =
     (case getData c of
        Some g \<Rightarrow> g
      | None \<Rightarrow> (\<lambda>ctx. case data ctx of
                         None \<Rightarrow> Inl (cannot_read (KEY c))
                       | Some d \<Rightarrow> Inr (js_prop d (KEY c))))"

definition process_of :: "Component \<Rightarrow> jsval \<Rightarrow> Context \<Rightarrow> string + jsval" where
  "process_of c = (case process c of Some p \<Rightarrow> p | None \<Rightarrow> (\<lambda>data ctx. Inr data))"

definition transform_of :: "Component \<Rightarrow> jsval \<Rightarrow> Context \<Rightarrow> string + Entity" where
  "transform_of c =
     (case transform c of
        Some t \<Rightarrow> t
      | None \<Rightarrow> (\<lambda>ob ctx. Inr (obj_set (parent ctx) (KEY c) ob)))"

definition violation :: "string \<Rightarrow> string \<Rightarrow> string \<Rightarrow> string" where
  "violation i r key =
     i @ '' does not contain '' @ [CHR 0x22] @ r @ [CHR 0x22] @
     '', which is a requirement for '' @ [CHR 0x22] @ key @ [CHR 0x22]"

text \<open>The \<open>forEach\<close> over \<open>REQUIRES\<close>: the message of the first throw, if any.\<close>

fun check_requires :: "Passed \<Rightarrow> string \<Rightarrow> string \<Rightarrow> string list \<Rightarrow> string option" where
  "check_requires ps i key [] = None"
| "check_requires ps i key (r # rs) =
     (case obj_get ps r of
        None \<Rightarrow> Some (cannot_read ''includes'')
      | Some ids \<Rightarrow>
          if i \<notin> set ids then Some (violation i r key)
          else check_requires ps i key rs)"

text \<open>
  A call either returns or throws; both leave a context behind, in which \<open>passed\<close> and
  \<open>parent\<close> may have been mutated. (A \<open>transform\<close> that throws leaves the parent as it
  found it in the model; the resolver deletes that entity.)
\<close>

datatype outcome = Done Context | Threw string Context

definition left_behind :: "outcome \<Rightarrow> Context" where
  "left_behind r = (case r of Done ctx \<Rightarrow> ctx | Threw e ctx \<Rightarrow> ctx)"

text \<open>
  The last three statements of \<open>resolve\<close>: \<open>getData\<close>, \<open>process\<close>, and \<open>transform\<close> when the
  processed value is not \<open>undefined\<close>.
\<close>

definition apply_hooks :: "Component \<Rightarrow> Context \<Rightarrow> outcome" where
  "apply_hooks c ctx1 =
     (case getData_of c ctx1 of
        Inl e \<Rightarrow> Threw e ctx1
      | Inr cData \<Rightarrow>
          (case process_of c cData ctx1 of
             Inl e \<Rightarrow> Threw e ctx1
           | Inr ob \<Rightarrow>
               if ob \<noteq> VUndefined
               then (case transform_of c ob ctx1 of
                       Inl e \<Rightarrow> Threw e ctx1
                     | Inr p \<Rightarrow> Done (ctx1\<lparr>parent := p\<rparr>))
               else Done ctx1))"

text \<open>
  The body of \<open>if (trigger(ctx))\<close>: the id is pushed onto \<open>passed[c.KEY]\<close>, then the
  requirements are checked, then the hooks run.
\<close>

definition Component_resolve :: "Component \<Rightarrow> Context \<Rightarrow> outcome" where
  "Component_resolve c ctx =
     (case trigger_of c ctx of
        Inl e \<Rightarrow> Threw e ctx
      | Inr False \<Rightarrow> Done ctx
      | Inr True \<Rightarrow>
          (case obj_get (passed ctx) (KEY c) of
             None \<Rightarrow> Threw (cannot_read ''push'') ctx
           | Some ids \<Rightarrow>
               (let ctx1 = ctx\<lparr>passed := obj_upd (passed ctx) (KEY c) (ids @ [ctx_id ctx])\<rparr>
                in case check_requires (passed ctx1) (ctx_id ctx1) (KEY c)
                          (or_empty (REQUIRES c)) of
                     Some e \<Rightarrow> Threw e ctx1
                   | None \<Rightarrow> apply_hooks c ctx1)))"

section \<open>resolveEntities\<close>

definition duplicate_msg :: "EntityData \<Rightarrow> EntityData \<Rightarrow> string" where
  "duplicate_msg e first =
     ''Duplicate id '' @ to_string (js_prop e ''id'') @ [CHR 0x0A] @
     to_string (js_prop e ''name'') @ [CHR 0x0A] @ to_string (js_prop first ''name'')"

text \<open>
  One round of the first loop, \<open>d\<close> and \<open>errors\<close> after the record \<open>e\<close>, for an id that names
  no member of \<open>Object.prototype\<close>; \<open>first_loop\<close> below covers every id.
\<close>

definition add_record :: "EntityData \<Rightarrow> EntityMap \<times> ErrorMap \<Rightarrow> EntityMap \<times> ErrorMap" where
  "add_record e = (\<lambda>(d, errors).
     (let i = to_string (js_prop e ''id'') in
      case obj_get d i of
        Some first \<Rightarrow> (d, error i (Single (duplicate_msg e first)) errors)
      | None \<Rightarrow> (obj_set d i e, errors)))"

definition seed :: "EntityMap \<Rightarrow> Manifest" where
  "seed d = fold (\<lambda>key out. obj_set out key []) (keys d) []"

record RState =
  st_d :: EntityMap
  st_out :: Manifest
  st_passed :: Passed
  st_errors :: ErrorMap

text \<open>The \<open>for (var k in passed)\<close> loop of the catch block.\<close>

definition unpass :: "string \<Rightarrow> Passed \<Rightarrow> Passed" where
  "unpass i ps = map (\<lambda>p. (fst p, remove1 i (snd p))) ps"

definition context_of :: "ComponentInfo list \<Rightarrow> string \<times> Entity \<Rightarrow> RState \<Rightarrow> Context" where
  "context_of comps = (\<lambda>(k, v) s.
     \<lparr>entities = st_d s, manifest = st_out s, passed = st_passed s, parent = v,
      ctx_id = k, data = obj_get (st_d s) k, components = comps\<rparr>)"

text \<open>
  The body of the inner loop for the entry \<open>(k, v)\<close> of the snapshot. On return the entity
  held under \<open>k\<close> is the parent as the call left it (the call mutates that object in place).
\<close>

definition resolve_entry ::
  "Component \<Rightarrow> ComponentInfo list \<Rightarrow> string \<times> Entity \<Rightarrow> RState \<Rightarrow> RState" where
  "resolve_entry cm comps kv s =
     (case Component_resolve cm (context_of comps kv s) of
        Done ctx \<Rightarrow>
          s\<lparr>st_out := obj_upd (st_out s) (ctx_id ctx) (parent ctx),
            st_passed := passed ctx\<rparr>
      | Threw err ctx \<Rightarrow>
          s\<lparr>st_errors := error (ctx_id ctx) (Single err) (st_errors s),
            st_out := obj_delete (st_out s) (ctx_id ctx),
            st_d := obj_delete (st_d s) (ctx_id ctx),
            st_passed := unpass (ctx_id ctx) (passed ctx)\<rparr>)"

text \<open>The body of the outer loop: one component over the snapshot of the manifest.\<close>

definition resolve_pass :: "ComponentInfo list \<Rightarrow> Component \<Rightarrow> RState \<Rightarrow> RState" where
  "resolve_pass comps cm s =
     (let s1 = s\<lparr>st_passed := obj_set (st_passed s) (KEY cm) []\<rparr>
      in fold (resolve_entry cm comps) (st_out s1) s1)"

definition resolve_with :: "Component list \<Rightarrow> EntityData list \<Rightarrow> ErrorMap \<Rightarrow> RState" where
  "resolve_with comps ent errors =
     (let (d, errors1) = fold add_record ent ([], errors);
          out = seed d
      in fold (resolve_pass (map ComponentInfo.truncate comps)) comps
           \<lparr>st_d = d, st_out = out, st_passed = [], st_errors = errors1\<rparr>)"

definition errors_at :: "ErrorMap \<Rightarrow> string \<Rightarrow> string list" where
  "errors_at errors key = or_empty (obj_get errors key)"

text \<open>
  The manifest returned, and the error sink after the call, on records whose ids name no
  member of \<open>Object.prototype\<close> (\<open>resolveEntities_call_plain\<close>).
\<close>

definition resolveEntities ::
  "Component list \<Rightarrow> EntityData list \<Rightarrow> ErrorMap \<Rightarrow> Manifest \<times> ErrorMap" where
  "resolveEntities list ent errors =
     (let s = resolve_with (Component_all list) ent errors in (st_out s, st_errors s))"

section \<open>Members of Object.prototype\<close>

text \<open>
  The record map \<open>d\<close> and the error sink are plain objects, and the first loop reaches them
  with the id of a record: \<open>e.id in d\<close>, \<open>d[e.id]\<close> and \<open>errors[key]\<close> follow the prototype
  chain. \<open>inherited\<close> lists the names of the members of \<open>Object.prototype\<close>; none of them is
  enumerable, so \<open>for ... in\<close> and \<open>Object.entries\<close> do not see them.
\<close>

definition inherited :: "string list" where
  "inherited =
     [''constructor'', ''__defineGetter__'', ''__defineSetter__'', ''hasOwnProperty'',
      ''__lookupGetter__'', ''__lookupSetter__'', ''isPrototypeOf'', ''propertyIsEnumerable'',
      ''toString'', ''valueOf'', ''__proto__'', ''toLocaleString'']"

text \<open>\<open>k in ob\<close> for a plain object.\<close>

definition has_in :: "'v jsobj \<Rightarrow> string \<Rightarrow> bool" where
  "has_in ob k \<longleftrightarrow> obj_has ob k \<or> k \<in> set inherited"

text \<open>
  \<open>m.name\<close> in a template literal, for the inherited member \<open>m\<close> of the name \<open>k\<close>:
  \<open>constructor\<close> is the function \<open>Object\<close>, \<open>__proto__\<close> is \<open>Object.prototype\<close> itself, which
  has no \<open>name\<close>, and every other member is a function named like the property.
\<close>

definition inherited_name :: "string \<Rightarrow> string" where
  "inherited_name k =
     (if k = ''constructor'' then ''Object''
      else if k = ''__proto__'' then ''undefined'' else k)"

text \<open>
  What calling the missing method \<open>concat\<close> of an inherited member throws, after
  \<open>toString()\<close>.
\<close>

definition not_a_function :: string where
  "not_a_function = ''TypeError: errors[key].concat is not a function''"

text \<open>
  A call of \<open>error\<close> with any key: it returns the new sink, or throws. When the key names an
  inherited member and the sink has no property of its own under it, \<open>errors[key]\<close> is that
  member: it is not \<open>undefined\<close>, so no list is created, and it has no \<open>concat\<close>.
\<close>

definition error_call :: "string \<Rightarrow> errarg \<Rightarrow> ErrorMap \<Rightarrow> string + ErrorMap" where
  "error_call key err errors =
     (let errors1 = (if has_in errors key then errors else obj_set errors key []);
          errs = (case err of Single e \<Rightarrow> [e] | Several es \<Rightarrow> es)
      in case obj_get errors1 key of
           Some es \<Rightarrow> Inr (obj_set errors1 key (es @ errs))
         | None \<Rightarrow> Inl not_a_function)"

text \<open>The message of the first loop for the record \<open>e\<close>, whose id is \<open>in d\<close>.\<close>

definition duplicate_text :: "EntityData \<Rightarrow> EntityMap \<Rightarrow> string" where
  "duplicate_text e d =
     (let i = to_string (js_prop e ''id'') in
      ''Duplicate id '' @ i @ [CHR 0x0A] @ to_string (js_prop e ''name'') @ [CHR 0x0A] @
      (case obj_get d i of
         Some first \<Rightarrow> to_string (js_prop first ''name'')
       | None \<Rightarrow> inherited_name i))"

text \<open>
  The first loop of \<open>resolveEntities\<close> on any records: the record map and the sink after
  it, or the thrown value and the sink as the throw left it.
\<close>

fun first_loop :: "EntityData list \<Rightarrow> EntityMap \<Rightarrow> ErrorMap \<Rightarrow> (string + EntityMap) \<times> ErrorMap" where
  "first_loop [] d errors = (Inr d, errors)"
| "first_loop (e # ent) d errors =
     (let i = to_string (js_prop e ''id'') in
      if has_in d i
      then (case error_call i (Single (duplicate_text e d)) errors of
              Inl t \<Rightarrow> (Inl t, errors)
            | Inr errors1 \<Rightarrow> first_loop ent d errors1)
      else first_loop ent (obj_set d i e) errors)"

text \<open>
  A call of \<open>resolveEntities\<close> on any records: the manifest returned or the value thrown,
  and the error sink after the call. The ids that reach the second loop are the keys of
  \<open>d\<close>, which name no inherited member (\<open>first_loop_keys\<close>), so the \<open>error\<close> of the catch
  block returns (\<open>error_call_plain\<close>).
\<close>

definition resolveEntities_call ::
  "Component list \<Rightarrow> EntityData list \<Rightarrow> ErrorMap \<Rightarrow> (string + Manifest) \<times> ErrorMap" where
  "resolveEntities_call list ent errors =
     (case first_loop ent [] errors of
        (Inl t, errors1) \<Rightarrow> (Inl t, errors1)
      | (Inr d, errors1) \<Rightarrow>
          (let components = Component_all list;
               s = fold (resolve_pass (map ComponentInfo.truncate components)) components
                     \<lparr>st_d = d, st_out = seed d, st_passed = [], st_errors = errors1\<rparr>
           in (Inr (st_out s), st_errors s)))"

section \<open>Invariants of the sort loop\<close>

definition key_set :: "NodeDep list \<Rightarrow> string set" where
  "key_set out = KEY ` node ` set out"

definition closed_inv :: "Component list \<Rightarrow> NodeDep list \<Rightarrow> NodeDep list \<Rightarrow> NodeDep list \<Rightarrow> bool" where
  "closed_inv list l ne out \<longleftrightarrow>
     (\<forall>m\<in>set l. node m \<in> set list \<and>
        set (dependencies list (node m)) \<subseteq> set (dep m) \<union> key_set out) \<and>
     (\<forall>n\<in>set ne. node n \<in> set list \<and> set (dependencies list (node n)) \<subseteq> key_set out) \<and>
     (\<forall>j<length out. node (out ! j) \<in> set list \<and>
        set (dependencies list (node (out ! j))) \<subseteq> key_set (take j out))"

definition once_inv :: "NodeDep list \<Rightarrow> NodeDep list \<Rightarrow> NodeDep list \<Rightarrow> bool" where
  "once_inv l ne out \<longleftrightarrow>
     distinct (map (\<lambda>m. KEY (node m)) l) \<and>
     distinct (map (\<lambda>m. KEY (node m)) (ne @ out)) \<and>
     (\<forall>n\<in>set (ne @ out). \<forall>m\<in>set l. KEY (node m) = KEY (node n) \<longrightarrow> dep m = [])"

section \<open>Notions used in the statements\<close>

text \<open>
  \<open>depends_on list c d\<close>: the registered component \<open>d\<close> has the key of \<open>c\<close> among its
  dependencies as \<open>Component.dependencies\<close> computes them (named in \<open>WAIT_FOR\<close> or
  \<open>REQUIRES\<close>, or the key of a hoisted component when \<open>d\<close> is not hoisted, or of a component
  that is not sunk when \<open>d\<close> is), directly or through a chain of registered components.
  \<open>plain k r\<close> is a component without hooks and flags, used for concrete runs.
\<close>

inductive depends_on :: "Component list \<Rightarrow> Component \<Rightarrow> Component \<Rightarrow> bool"
  for list :: "Component list" and c :: Component where
  direct: "d \<in> set list \<Longrightarrow> KEY c \<in> set (dependencies list d) \<Longrightarrow> depends_on list c d"
| step: "depends_on list c d \<Longrightarrow> e \<in> set list \<Longrightarrow> KEY d \<in> set (dependencies list e) \<Longrightarrow>
     depends_on list c e"

definition plain :: "string \<Rightarrow> string list option \<Rightarrow> Component" where
  "plain k r =
     \<lparr>KEY = k, REQUIRES = r, OPTIONAL = None, SUPPRESS_TYPE = None, HOIST = None,
      SINK = None, WAIT_FOR = None, trigger = None, getData = None, process = None,
      transform = None\<rparr>"

text \<open>A component that triggers on the key \<open>note\<close> and whose \<open>process\<close> returns \<open>undefined\<close>.\<close>

definition silent :: Component where
  "silent = (plain ''note'' None)\<lparr>process := Some (\<lambda>data ctx. Inr VUndefined)\<rparr>"


section \<open>Relations between two runs\<close>

text \<open>
  Two resolver states that agree on everything but the error sink, whose sinks are related
  by \<open>Q\<close>; \<open>extends e a b\<close>: every list of \<open>a\<close> is the list of \<open>e\<close> followed by the list of \<open>b\<close>.
\<close>

definition error_closed :: "(ErrorMap \<Rightarrow> ErrorMap \<Rightarrow> bool) \<Rightarrow> bool" where
  "error_closed Q \<longleftrightarrow> (\<forall>k m a b. Q a b \<longrightarrow> Q (error k (Single m) a) (error k (Single m) b))"

definition related :: "(ErrorMap \<Rightarrow> ErrorMap \<Rightarrow> bool) \<Rightarrow> RState \<Rightarrow> RState \<Rightarrow> bool" where
  "related Q s t \<longleftrightarrow>
     st_d s = st_d t \<and> st_out s = st_out t \<and> st_passed s = st_passed t \<and>
     Q (st_errors s) (st_errors t)"


section \<open>Invariants of the resolver\<close>

text \<open>
  \<open>passed_ok\<close>: the passed-sets have distinct keys and every id at most once.
  \<open>pass_inv c rest s\<close>: in the pass of \<open>c\<close>, with the entries \<open>rest\<close> of the snapshot still to
  visit, none of their ids is recorded under the key of \<open>c\<close> yet.
\<close>

definition passed_ok :: "Passed \<Rightarrow> bool" where
  "passed_ok ps \<longleftrightarrow> distinct (keys ps) \<and> (\<forall>p\<in>set ps. distinct (snd p))"

definition pass_inv :: "Component \<Rightarrow> (string \<times> Entity) list \<Rightarrow> RState \<Rightarrow> bool" where
  "pass_inv c rest s \<longleftrightarrow>
     passed_ok (st_passed s) \<and> distinct (map fst rest) \<and>
     (\<forall>ids. obj_get (st_passed s) (KEY c) = Some ids \<longrightarrow> set ids \<inter> fst ` set rest = {})"

text \<open>
  The requirement-eviction example: the state before the pass of \<open>weapon\<close> (which requires
  \<open>damage\<close>) over a sword without damage and an axe, and the state after that pass.
\<close>

definition before_weapon :: RState where
  "before_weapon =
     \<lparr>st_d = [(''sword'', [(''id'', VStr ''sword''), (''weapon'', VObj [])]),
              (''axe'', [(''id'', VStr ''axe''), (''damage'', VStr ''1d6'')])],
      st_out = [(''sword'', []), (''axe'', [(''damage'', VStr ''1d6'')])],
      st_passed = [(''damage'', [''axe''])], st_errors = []\<rparr>"

definition sword_evicted :: RState where
  "sword_evicted =
     \<lparr>st_d = [(''axe'', [(''id'', VStr ''axe''), (''damage'', VStr ''1d6'')])],
      st_out = [(''axe'', [(''damage'', VStr ''1d6'')])],
      st_passed = [(''damage'', [''axe'']), (''weapon'', [])],
      st_errors = [(''sword'', [violation ''sword'' ''damage'' ''weapon''])]\<rparr>"

text \<open>\<open>thrown_by cs m\<close>: resolving some component of \<open>cs\<close> on some context throws \<open>m\<close>.\<close>

definition thrown_by :: "Component list \<Rightarrow> string \<Rightarrow> bool" where
  "thrown_by cs m \<longleftrightarrow> (\<exists>c\<in>set cs. \<exists>ctx ctx'. Component_resolve c ctx = Threw m ctx')"

section \<open>Properties of objects\<close>

lemma obj_has_get: "obj_has ob k \<longleftrightarrow> obj_get ob k \<noteq> None"
  by (simp add: obj_has_def obj_get_def map_of_eq_None_iff)

lemma obj_has_keys: "obj_has ob k \<longleftrightarrow> k \<in> set (keys ob)"
  by (simp add: obj_has_def keys_def)

lemma keys_upd: "keys (obj_upd ob k v) = keys ob"
  unfolding keys_def obj_upd_def map_map by (intro map_cong refl) auto

lemma map_of_upd_other:
  "k' \<noteq> k \<Longrightarrow> map_of (map (\<lambda>p. if fst p = k then (k, v) else p) ob) k' = map_of ob k'"
  by (induction ob) simp_all

lemma map_of_upd_same:
  "map_of (map (\<lambda>p. if fst p = k then (k, v) else p) ob) k =
     (if k \<in> fst ` set ob then Some v else None)"
  by (induction ob) simp_all

lemma obj_get_upd:
  "obj_get (obj_upd ob k v) k' = (if k' = k \<and> obj_has ob k then Some v else obj_get ob k')"
proof (cases "k' = k")
  case True
  have "k \<notin> fst ` set ob \<Longrightarrow> map_of ob k = None" by (simp add: map_of_eq_None_iff)
  with True show ?thesis
    by (simp add: obj_upd_def obj_get_def obj_has_def map_of_upd_same)
next
  case False
  then show ?thesis
    by (simp add: obj_upd_def obj_get_def map_of_upd_other)
qed

lemma obj_upd_same:
  assumes "distinct (keys ob)" and "(k, v) \<in> set ob"
  shows "obj_upd ob k v = ob"
proof -
  have "(if fst x = k then (k, v) else x) = x" if "x \<in> set ob" for x
  proof (cases x)
    case (Pair k' v')
    with assms that have "k' = k \<Longrightarrow> v' = v"
      by (metis eq_key_imp_eq_value keys_def)
    with Pair show ?thesis by auto
  qed
  then show ?thesis unfolding obj_upd_def by (simp add: map_idI)
qed

lemma obj_insert_split: "\<exists>t d. ob = t @ d \<and> obj_insert ob k v = t @ (k, v) # d"
proof (cases "is_index k")
  case True
  have "ob = takeWhile (comes_before k) ob @ dropWhile (comes_before k) ob" by simp
  moreover have "obj_insert ob k v =
      takeWhile (comes_before k) ob @ (k, v) # dropWhile (comes_before k) ob"
    using True by (simp add: obj_insert_def)
  ultimately show ?thesis by blast
next
  case False
  then have "ob = ob @ [] \<and> obj_insert ob k v = ob @ (k, v) # []"
    by (simp add: obj_insert_def)
  then show ?thesis by blast
qed

lemma set_insert: "set (obj_insert ob k v) = insert (k, v) (set ob)"
proof -
  obtain t d where ob: "ob = t @ d" and ins: "obj_insert ob k v = t @ (k, v) # d"
    using obj_insert_split [of ob k v] by blast
  show ?thesis unfolding ins by (auto simp: ob)
qed

lemma keys_insert: "set (keys (obj_insert ob k v)) = insert k (set (keys ob))"
  by (simp add: keys_def set_insert)

lemma distinct_insert:
  assumes "distinct (keys ob)" and "\<not> obj_has ob k"
  shows "distinct (keys (obj_insert ob k v))"
proof -
  obtain t d where ob: "ob = t @ d" and ins: "obj_insert ob k v = t @ (k, v) # d"
    using obj_insert_split [of ob k v] by blast
  from assms show ?thesis unfolding ins keys_def obj_has_def by (auto simp: ob)
qed

lemma obj_get_insert:
  assumes "\<not> obj_has ob k"
  shows "obj_get (obj_insert ob k v) k' = (if k' = k then Some v else obj_get ob k')"
proof -
  obtain t d where ob: "ob = t @ d" and ins: "obj_insert ob k v = t @ (k, v) # d"
    using obj_insert_split [of ob k v] by blast
  from assms ob have n: "map_of t k = None"
    by (simp add: obj_has_def map_of_eq_None_iff)
  have "obj_get (obj_insert ob k v) k' = map_of (t @ (k, v) # d) k'"
    by (simp only: ins obj_get_def)
  also from n have "\<dots> = (if k' = k then Some v else map_of (t @ d) k')"
    by (simp add: map_add_def split: option.splits)
  finally show ?thesis by (simp add: ob obj_get_def)
qed

lemma keys_set: "set (keys (obj_set ob k v)) = insert k (set (keys ob))"
  by (cases "obj_has ob k") (auto simp: obj_set_def keys_upd keys_insert obj_has_keys)

lemma distinct_set: "distinct (keys ob) \<Longrightarrow> distinct (keys (obj_set ob k v))"
  by (simp add: obj_set_def keys_upd distinct_insert)

lemma obj_get_set: "obj_get (obj_set ob k v) k' = (if k' = k then Some v else obj_get ob k')"
  by (simp add: obj_set_def obj_get_upd obj_get_insert)

lemma keys_delete: "set (keys (obj_delete ob k)) = set (keys ob) - {k}"
  by (auto simp: obj_delete_def keys_def)

lemma distinct_delete: "distinct (keys ob) \<Longrightarrow> distinct (keys (obj_delete ob k))"
  by (simp add: obj_delete_def keys_def distinct_map_filter)

lemma obj_get_delete: "obj_get (obj_delete ob k) k' = (if k' = k then None else obj_get ob k')"
  by (induction ob) (auto simp: obj_delete_def obj_get_def)

lemma errors_at_error:
  "errors_at (error k (Single m) errors) key = errors_at errors key @ (if key = k then [m] else [])"
  by (auto simp: errors_at_def error_def Let_def obj_get_set or_empty_def split: option.splits)

section \<open>Properties of the component order\<close>

lemma sort_loop_Nil: "sort_loop l [] out = out"
  by (simp add: sort_loop.simps [of l "[]" out])

lemma sort_loop_step:
  "no_edges \<noteq> [] \<Longrightarrow>
   sort_loop l no_edges out =
     sort_loop (fst (remove_dep (KEY (node (last no_edges))) l))
       (butlast no_edges @ snd (remove_dep (KEY (node (last no_edges))) l))
       (out @ [last no_edges])"
  by (simp add: sort_loop.simps [of l no_edges out] Let_def)

lemma set_uniq: "set (uniq xs) = set xs"
  by (simp add: uniq_def)

lemma remove_dep_fst:
  "fst (remove_dep key l) = map (\<lambda>m. m\<lparr>dep := remove1 key (dep m)\<rparr>) l"
  by (induction l) (auto simp: Let_def remove1_idem split: prod.splits)

lemma remove_dep_snd:
  "snd (remove_dep key l) =
     map (\<lambda>m. m\<lparr>dep := []\<rparr>) (filter (\<lambda>m. key \<in> set (dep m) \<and> remove1 key (dep m) = []) l)"
  by (induction l) (auto simp: Let_def split: prod.splits)

lemma remove1_empty: "x \<in> set xs \<Longrightarrow> remove1 x xs = [] \<Longrightarrow> set xs = {x}"
  by (cases xs) (auto split: if_splits)

lemma set_remove1_insert: "set xs \<subseteq> insert x (set (remove1 x xs))"
  by (induction xs) auto

lemma closed_inv_step:
  assumes inv: "closed_inv list l ne out" and ne: "ne \<noteq> []"
  shows "closed_inv list (fst (remove_dep (KEY (node (last ne))) l))
           (butlast ne @ snd (remove_dep (KEY (node (last ne))) l)) (out @ [last ne])"
proof -
  let ?n = "last ne"
  let ?k = "KEY (node ?n)"
  have n: "?n \<in> set ne" using ne by simp
  have ks: "key_set (out @ [?n]) = insert ?k (key_set out)"
    by (simp add: key_set_def)
  have a: "\<forall>m\<in>set (fst (remove_dep ?k l)). node m \<in> set list \<and>
      set (dependencies list (node m)) \<subseteq> set (dep m) \<union> key_set (out @ [?n])"
  proof
    fix m' assume "m' \<in> set (fst (remove_dep ?k l))"
    then obtain m where m: "m \<in> set l" and m': "m' = m\<lparr>dep := remove1 ?k (dep m)\<rparr>"
      by (auto simp: remove_dep_fst)
    from inv m have "node m \<in> set list"
      and "set (dependencies list (node m)) \<subseteq> set (dep m) \<union> key_set out"
      by (simp_all add: closed_inv_def)
    moreover have "set (dep m) \<subseteq> insert ?k (set (remove1 ?k (dep m)))"
      by (rule set_remove1_insert)
    ultimately show "node m' \<in> set list \<and>
        set (dependencies list (node m')) \<subseteq> set (dep m') \<union> key_set (out @ [?n])"
      unfolding ks m' by auto
  qed
  have b: "\<forall>p\<in>set (butlast ne @ snd (remove_dep ?k l)).
      node p \<in> set list \<and> set (dependencies list (node p)) \<subseteq> key_set (out @ [?n])"
  proof
    fix p assume "p \<in> set (butlast ne @ snd (remove_dep ?k l))"
    then consider "p \<in> set (butlast ne)" | "p \<in> set (snd (remove_dep ?k l))" by auto
    then show "node p \<in> set list \<and> set (dependencies list (node p)) \<subseteq> key_set (out @ [?n])"
    proof cases
      case 1
      then have "p \<in> set ne" by (rule in_set_butlastD)
      with inv show ?thesis unfolding ks by (auto simp: closed_inv_def)
    next
      case 2
      then obtain m where m: "m \<in> set l" and k: "?k \<in> set (dep m)"
        and e: "remove1 ?k (dep m) = []" and p: "node p = node m"
        by (auto simp: remove_dep_snd)
      from k e have "set (dep m) = {?k}" by (rule remove1_empty)
      moreover from inv m have "node m \<in> set list"
        and "set (dependencies list (node m)) \<subseteq> set (dep m) \<union> key_set out"
        by (simp_all add: closed_inv_def)
      ultimately show ?thesis unfolding ks p by auto
    qed
  qed
  have c: "\<forall>j<length (out @ [?n]). node ((out @ [?n]) ! j) \<in> set list \<and>
      set (dependencies list (node ((out @ [?n]) ! j))) \<subseteq> key_set (take j (out @ [?n]))"
  proof (intro allI impI)
    fix j assume "j < length (out @ [?n])"
    then consider "j < length out" | "j = length out" by fastforce
    then show "node ((out @ [?n]) ! j) \<in> set list \<and>
      set (dependencies list (node ((out @ [?n]) ! j))) \<subseteq> key_set (take j (out @ [?n]))"
    proof cases
      case 1
      with inv show ?thesis by (simp add: closed_inv_def nth_append)
    next
      case 2
      with inv n show ?thesis by (simp add: closed_inv_def)
    qed
  qed
  from a b c show ?thesis unfolding closed_inv_def by blast
qed

lemma sort_loop_closed:
  "closed_inv list l ne out \<Longrightarrow>
   \<forall>j<length (sort_loop l ne out). node (sort_loop l ne out ! j) \<in> set list \<and>
     set (dependencies list (node (sort_loop l ne out ! j))) \<subseteq>
       key_set (take j (sort_loop l ne out))"
proof (induction l ne out rule: sort_loop.induct)
  case (1 l no_edges out)
  show ?case
  proof (cases "no_edges = []")
    case True
    with "1.prems" show ?thesis
      by (simp add: sort_loop_Nil closed_inv_def)
  next
    case False
    have "closed_inv list (fst (remove_dep (KEY (node (last no_edges))) l))
            (butlast no_edges @ snd (remove_dep (KEY (node (last no_edges))) l))
            (out @ [last no_edges])"
      using "1.prems" False by (rule closed_inv_step)
    from "1.IH" [OF False refl refl this] False show ?thesis
      by (simp add: sort_loop_step)
  qed
qed

lemma closed_inv_init:
  "closed_inv list (map (\<lambda>c. \<lparr>node = c, dep = dependencies list c\<rparr>) list)
     (filter (\<lambda>c. dep c = []) (map (\<lambda>c. \<lparr>node = c, dep = dependencies list c\<rparr>) list)) []"
  by (auto simp: closed_inv_def)

lemma Component_all_closed:
  assumes "j < length (Component_all list)"
  shows "Component_all list ! j \<in> set list \<and>
         set (dependencies list (Component_all list ! j)) \<subseteq> KEY ` set (take j (Component_all list))"
  using sort_loop_closed [OF closed_inv_init, of list] assms
  by (simp add: Component_all_def Let_def key_set_def take_map image_image)

lemma distinct_map_eq: "distinct (map f xs) \<Longrightarrow> x \<in> set xs \<Longrightarrow> y \<in> set xs \<Longrightarrow> f x = f y \<Longrightarrow> x = y"
  by (meson distinct_map inj_on_def)

lemma once_inv_snoc:
  assumes inv: "once_inv l (bn @ [n]) out"
  shows "once_inv (fst (remove_dep (KEY (node n)) l))
           (bn @ snd (remove_dep (KEY (node n)) l)) (out @ [n])"
proof -
  let ?k = "KEY (node n)"
  let ?K = "\<lambda>m. KEY (node m)"
  let ?P = "\<lambda>m. ?k \<in> set (dep m) \<and> remove1 ?k (dep m) = []"
  let ?pushed = "snd (remove_dep ?k l)"
  from inv have dl: "distinct (map ?K l)" and dn: "distinct (map ?K ((bn @ [n]) @ out))"
    and em: "\<And>x m. x \<in> set ((bn @ [n]) @ out) \<Longrightarrow> m \<in> set l \<Longrightarrow> ?K m = ?K x \<Longrightarrow> dep m = []"
    unfolding once_inv_def by blast+
  have kp: "map ?K ?pushed = map ?K (filter ?P l)"
    by (simp add: remove_dep_snd comp_def)
  have a: "distinct (map ?K (fst (remove_dep ?k l)))"
    using dl by (simp add: remove_dep_fst comp_def)
  have dp: "distinct (map ?K ?pushed)"
    unfolding kp using dl by (rule distinct_map_filter)
  have disj: "?K p \<noteq> ?K x" if "p \<in> set ?pushed" and x: "x \<in> set ((bn @ [n]) @ out)" for p x
  proof
    assume eq: "?K p = ?K x"
    from that(1) obtain m where m: "m \<in> set l" and P: "?P m" and "?K p = ?K m"
      by (auto simp: remove_dep_snd)
    with eq have "?K m = ?K x" by simp
    with x m have "dep m = []" by (rule em)
    with P show False by simp
  qed
  have b: "distinct (map ?K ((bn @ ?pushed) @ out @ [n]))"
  proof -
    have 1: "distinct (map ?K bn)" "distinct (map ?K out)" "?K n \<notin> ?K ` set bn"
      "?K n \<notin> ?K ` set out" "?K ` set bn \<inter> ?K ` set out = {}"
      using dn by auto
    have "?K p \<noteq> ?K x" if "p \<in> set ?pushed" and "x \<in> set bn" for p x
      using that disj [of p x] by simp
    then have 2: "?K ` set bn \<inter> ?K ` set ?pushed = {}" by force
    have "?K p \<noteq> ?K x" if "p \<in> set ?pushed" and "x \<in> set out" for p x
      using that disj [of p x] by simp
    then have 3: "?K ` set ?pushed \<inter> ?K ` set out = {}" by force
    have "?K p \<noteq> ?K n" if "p \<in> set ?pushed" for p
      using that disj [of p n] by simp
    then have 4: "?K n \<notin> ?K ` set ?pushed" by force
    from 1 2 3 4 dp show ?thesis by (simp add: Int_Un_distrib Int_Un_distrib2)
  qed
  have c: "\<forall>x\<in>set ((bn @ ?pushed) @ out @ [n]).
      \<forall>m'\<in>set (fst (remove_dep ?k l)). ?K m' = ?K x \<longrightarrow> dep m' = []"
  proof (intro ballI impI)
    fix x m' assume x: "x \<in> set ((bn @ ?pushed) @ out @ [n])"
      and "m' \<in> set (fst (remove_dep ?k l))" and eq: "?K m' = ?K x"
    then obtain m where m: "m \<in> set l" and m': "m' = m\<lparr>dep := remove1 ?k (dep m)\<rparr>"
      by (auto simp: remove_dep_fst)
    from eq m' have eq': "?K m = ?K x" by simp
    from x have "x \<in> set ((bn @ [n]) @ out) \<or> x \<in> set ?pushed" by auto
    then show "dep m' = []"
    proof
      assume "x \<in> set ((bn @ [n]) @ out)"
      then have "dep m = []" using m eq' by (rule em)
      then show ?thesis by (simp add: m')
    next
      assume "x \<in> set ?pushed"
      then obtain mp where mp: "mp \<in> set l" and P: "?P mp" and "?K x = ?K mp"
        by (auto simp: remove_dep_snd)
      with eq' have "?K m = ?K mp" by simp
      with dl m mp have "m = mp" by (rule distinct_map_eq)
      with P show ?thesis by (simp add: m')
    qed
  qed
  from a b c show ?thesis unfolding once_inv_def by blast
qed

lemma once_inv_step:
  assumes inv: "once_inv l ne out" and ne: "ne \<noteq> []"
  shows "once_inv (fst (remove_dep (KEY (node (last ne))) l))
           (butlast ne @ snd (remove_dep (KEY (node (last ne))) l)) (out @ [last ne])"
proof -
  from inv ne have "once_inv l (butlast ne @ [last ne]) out" by simp
  then show ?thesis by (rule once_inv_snoc)
qed

lemma sort_loop_once:
  "once_inv l ne out \<Longrightarrow> distinct (map (\<lambda>m. KEY (node m)) (sort_loop l ne out))"
proof (induction l ne out rule: sort_loop.induct)
  case (1 l no_edges out)
  show ?case
  proof (cases "no_edges = []")
    case True
    with "1.prems" show ?thesis
      by (simp add: sort_loop_Nil once_inv_def)
  next
    case False
    have "once_inv (fst (remove_dep (KEY (node (last no_edges))) l))
            (butlast no_edges @ snd (remove_dep (KEY (node (last no_edges))) l))
            (out @ [last no_edges])"
      using "1.prems" False by (rule once_inv_step)
    from "1.IH" [OF False refl refl this] False show ?thesis
      by (simp add: sort_loop_step)
  qed
qed

lemma once_inv_init:
  assumes dl: "distinct (map (\<lambda>m. KEY (node m)) l)"
  shows "once_inv l (filter (\<lambda>c. dep c = []) l) []"
proof -
  let ?K = "\<lambda>m. KEY (node m)"
  have "distinct (map ?K (filter (\<lambda>c. dep c = []) l))"
    using dl by (rule distinct_map_filter)
  moreover have "\<forall>n\<in>set (filter (\<lambda>c. dep c = []) l). \<forall>m\<in>set l. ?K m = ?K n \<longrightarrow> dep m = []"
  proof (intro ballI impI)
    fix n m assume "n \<in> set (filter (\<lambda>c. dep c = []) l)" and m: "m \<in> set l" and eq: "?K m = ?K n"
    then have n: "n \<in> set l" and e: "dep n = []" by simp_all
    from dl m n eq have "m = n" by (rule distinct_map_eq)
    with e show "dep m = []" by simp
  qed
  ultimately show ?thesis using dl unfolding once_inv_def append_Nil2 by blast
qed

lemma Component_all_distinct:
  "distinct (map KEY list) \<Longrightarrow> distinct (map KEY (Component_all list))"
proof -
  assume "distinct (map KEY list)"
  then have "distinct (map (\<lambda>m. KEY (node m)) (map (\<lambda>c. \<lparr>node = c, dep = dependencies list c\<rparr>) list))"
    by (simp add: comp_def)
  then have "distinct (map (\<lambda>m. KEY (node m))
      (sort_loop (map (\<lambda>c. \<lparr>node = c, dep = dependencies list c\<rparr>) list)
         (filter (\<lambda>c. dep c = []) (map (\<lambda>c. \<lparr>node = c, dep = dependencies list c\<rparr>) list)) []))"
    by (intro sort_loop_once once_inv_init)
  then show ?thesis
    by (simp add: Component_all_def Let_def comp_def)
qed

lemma declared_in_dependencies:
  "k \<in> set (or_empty (REQUIRES c)) \<union> set (or_empty (WAIT_FOR c)) \<Longrightarrow>
   k \<in> set (dependencies list c)"
  by (auto simp: dependencies_def Let_def set_uniq)

lemma hoist_in_dependencies:
  "h \<in> set list \<Longrightarrow> truthy (HOIST h) \<Longrightarrow> \<not> truthy (HOIST c) \<Longrightarrow>
   KEY h \<in> set (dependencies list c)"
  by (auto simp: dependencies_def Let_def set_uniq)

lemma sink_in_dependencies:
  "n \<in> set list \<Longrightarrow> \<not> truthy (SINK n) \<Longrightarrow> truthy (SINK c) \<Longrightarrow>
   KEY n \<in> set (dependencies list c)"
  by (auto simp: dependencies_def Let_def set_uniq)

lemma dependency_placed_before:
  assumes j: "j < length (Component_all list)"
    and k: "k \<in> set (dependencies list (Component_all list ! j))"
  shows "\<exists>i<j. KEY (Component_all list ! i) = k \<and> Component_all list ! i \<in> set list"
proof -
  from Component_all_closed [OF j] k
  have "k \<in> KEY ` set (take j (Component_all list))" by blast
  then obtain x where x: "x \<in> set (take j (Component_all list))" and kx: "KEY x = k" by auto
  from x obtain i where i: "i < length (take j (Component_all list))"
    and xi: "take j (Component_all list) ! i = x"
    by (auto simp: in_set_conv_nth)
  from i j have ij: "i < j" by simp
  with xi have "Component_all list ! i = x" by simp
  moreover from ij j have "i < length (Component_all list)" by simp
  then have "Component_all list ! i \<in> set list" using Component_all_closed by blast
  ultimately show ?thesis using ij kx by blast
qed

subsection \<open>Concrete runs\<close>

text \<open>The equations that evaluate the order and a run on concrete inputs.\<close>

lemmas eval_defs = Component_all_def dependencies_def uniq_def or_empty_def truthy_def
  sort_loop_step sort_loop_Nil Let_def plain_def

lemmas run_defs = resolveEntities_def resolve_with_def resolve_pass_def resolve_entry_def
  context_of_def Component_resolve_def apply_hooks_def trigger_of_def getData_of_def process_of_def
  transform_of_def add_record_def seed_def keys_def js_prop_def error_def unpass_def
  obj_set_def obj_has_def obj_upd_def obj_insert_def obj_get_def obj_delete_def
  is_index_def index_val_def digit_val_def is_digit_def comes_before_def
  duplicate_msg_def

section \<open>Properties of Component.resolve\<close>

lemma check_requires_None:
  "(\<And>r. r \<in> set rs \<Longrightarrow> \<exists>ids. obj_get ps r = Some ids \<and> i \<in> set ids) \<Longrightarrow>
   check_requires ps i key rs = None"
  by (induction rs) (fastforce split: option.splits)+

lemma passed_apply_hooks: "passed (left_behind (apply_hooks c ctx1)) = passed ctx1"
  by (simp add: apply_hooks_def left_behind_def split: sum.splits)

lemma hooks_transform_irrelevant:
  "trigger_of (c\<lparr>transform := t'\<rparr>) = trigger_of c"
  "getData_of (c\<lparr>transform := t'\<rparr>) = getData_of c"
  "process_of (c\<lparr>transform := t'\<rparr>) = process_of c"
  by (auto simp: trigger_of_def getData_of_def process_of_def fun_eq_iff split: option.splits)

section \<open>Properties of resolveEntities\<close>

lemma Component_all_single:
  assumes "or_empty (REQUIRES c) = []" and "or_empty (WAIT_FOR c) = []"
  shows "Component_all [c] = [c]"
proof -
  have "dependencies [c] c = []"
    using assms by (simp add: dependencies_def uniq_def Let_def)
  then show ?thesis
    by (simp add: Component_all_def Let_def sort_loop_step sort_loop_Nil)
qed

lemma hooks_fields:
  "ctx_id (left_behind (apply_hooks c ctx1)) = ctx_id ctx1 \<and>
   passed (left_behind (apply_hooks c ctx1)) = passed ctx1"
  by (simp add: apply_hooks_def left_behind_def split: sum.splits)

lemma resolve_fields:
  "ctx_id (left_behind (Component_resolve c ctx)) = ctx_id ctx \<and>
   (passed (left_behind (Component_resolve c ctx)) = passed ctx \<or>
    (\<exists>ids. obj_get (passed ctx) (KEY c) = Some ids \<and>
       passed (left_behind (Component_resolve c ctx)) =
         obj_upd (passed ctx) (KEY c) (ids @ [ctx_id ctx])))"
proof (cases "trigger_of c ctx")
  case (Inl e)
  then show ?thesis by (simp add: Component_resolve_def left_behind_def)
next
  case (Inr b)
  show ?thesis
  proof (cases "b \<and> obj_get (passed ctx) (KEY c) \<noteq> None")
    case False
    with Inr show ?thesis
      by (cases b) (auto simp: Component_resolve_def left_behind_def)
  next
    case True
    then obtain ids where ids: "obj_get (passed ctx) (KEY c) = Some ids" and b: b by auto
    let ?ctx1 = "ctx\<lparr>passed := obj_upd (passed ctx) (KEY c) (ids @ [ctx_id ctx])\<rparr>"
    have "left_behind (Component_resolve c ctx) = ?ctx1 \<or>
          left_behind (Component_resolve c ctx) = left_behind (apply_hooks c ?ctx1)"
      using Inr b ids
      by (simp add: Component_resolve_def Let_def left_behind_def split: option.splits)
    then show ?thesis using ids hooks_fields [of c ?ctx1] by auto
  qed
qed

text \<open>What one round of the inner loop does to the state, in both outcomes.\<close>

lemma resolve_entry_cases:
  obtains (returned) p ps where
      "resolve_entry c comps (k, v) s = s\<lparr>st_out := obj_upd (st_out s) k p, st_passed := ps\<rparr>"
      "ps = st_passed s \<or> (\<exists>ids. obj_get (st_passed s) (KEY c) = Some ids \<and>
          ps = obj_upd (st_passed s) (KEY c) (ids @ [k]))"
      "\<exists>ctx'. Component_resolve c (context_of comps (k, v) s) = Done ctx'"
  | (thrown) err ps where
      "resolve_entry c comps (k, v) s =
         s\<lparr>st_errors := error k (Single err) (st_errors s),
           st_out := obj_delete (st_out s) k, st_d := obj_delete (st_d s) k,
           st_passed := unpass k ps\<rparr>"
      "ps = st_passed s \<or> (\<exists>ids. obj_get (st_passed s) (KEY c) = Some ids \<and>
          ps = obj_upd (st_passed s) (KEY c) (ids @ [k]))"
      "\<exists>ctx'. Component_resolve c (context_of comps (k, v) s) = Threw err ctx'"
proof -
  let ?ctx = "context_of comps (k, v) s"
  have f: "passed ?ctx = st_passed s" "ctx_id ?ctx = k" by (simp_all add: context_of_def)
  note rf = resolve_fields [of c ?ctx, unfolded f]
  show thesis
  proof (cases "Component_resolve c ?ctx")
    case (Done ctx')
    with rf have i: "ctx_id ctx' = k" and 2: "passed ctx' = st_passed s \<or>
        (\<exists>ids. obj_get (st_passed s) (KEY c) = Some ids \<and>
          passed ctx' = obj_upd (st_passed s) (KEY c) (ids @ [k]))"
      by (simp_all add: left_behind_def)
    from Done i have 1: "resolve_entry c comps (k, v) s =
        s\<lparr>st_out := obj_upd (st_out s) k (parent ctx'), st_passed := passed ctx'\<rparr>"
      by (simp add: resolve_entry_def)
    from Done have 3: "\<exists>ctx'. Component_resolve c ?ctx = Done ctx'" by blast
    from 1 2 3 show ?thesis by (rule returned)
  next
    case (Threw err ctx')
    with rf have i: "ctx_id ctx' = k" and 2: "passed ctx' = st_passed s \<or>
        (\<exists>ids. obj_get (st_passed s) (KEY c) = Some ids \<and>
          passed ctx' = obj_upd (st_passed s) (KEY c) (ids @ [k]))"
      by (simp_all add: left_behind_def)
    from Threw i have 1: "resolve_entry c comps (k, v) s =
         s\<lparr>st_errors := error k (Single err) (st_errors s),
           st_out := obj_delete (st_out s) k, st_d := obj_delete (st_d s) k,
           st_passed := unpass k (passed ctx')\<rparr>"
      by (simp add: resolve_entry_def)
    from Threw have 3: "\<exists>ctx'. Component_resolve c ?ctx = Threw err ctx'" by blast
    from 1 2 3 show ?thesis by (rule thrown)
  qed
qed


lemma error_closed_any: "error_closed (\<lambda>a b. True)"
  by (simp add: error_closed_def)

lemma related_entry:
  assumes Q: "error_closed Q" and r: "related Q s t"
  shows "related Q (resolve_entry c comps kv s) (resolve_entry c comps kv t)"
proof -
  from r have ctx: "context_of comps kv s = context_of comps kv t"
    by (cases kv) (simp add: related_def context_of_def)
  show ?thesis
  proof (cases "Component_resolve c (context_of comps kv t)")
    case (Done ctx')
    with r ctx show ?thesis by (simp add: resolve_entry_def related_def)
  next
    case (Threw err ctx')
    from Q r have "Q (error (ctx_id ctx') (Single err) (st_errors s))
        (error (ctx_id ctx') (Single err) (st_errors t))"
      unfolding error_closed_def related_def by blast
    with Threw r ctx show ?thesis
      by (simp add: resolve_entry_def related_def)
  qed
qed

lemma related_entries:
  "error_closed Q \<Longrightarrow> related Q s t \<Longrightarrow>
   related Q (fold (resolve_entry c comps) kvs s) (fold (resolve_entry c comps) kvs t)"
  by (induction kvs arbitrary: s t) (simp_all add: related_entry)

lemma related_pass:
  assumes Q: "error_closed Q" and r: "related Q s t"
  shows "related Q (resolve_pass comps c s) (resolve_pass comps c t)"
proof -
  let ?s1 = "s\<lparr>st_passed := obj_set (st_passed s) (KEY c) []\<rparr>"
  let ?t1 = "t\<lparr>st_passed := obj_set (st_passed t) (KEY c) []\<rparr>"
  from r have 1: "related Q ?s1 ?t1" and o: "st_out ?s1 = st_out ?t1"
    by (simp_all add: related_def)
  have "related Q (fold (resolve_entry c comps) (st_out ?t1) ?s1)
          (fold (resolve_entry c comps) (st_out ?t1) ?t1)"
    using Q 1 by (rule related_entries)
  then show ?thesis unfolding resolve_pass_def Let_def o .
qed

lemma related_passes:
  "error_closed Q \<Longrightarrow> related Q s t \<Longrightarrow>
   related Q (fold (resolve_pass comps) cs s) (fold (resolve_pass comps) cs t)"
  by (induction cs arbitrary: s t) (simp_all add: related_pass)

lemma add_record_cases:
  "add_record x (d, e) =
     (case obj_get d (to_string (js_prop x ''id'')) of
        Some first \<Rightarrow>
          (d, error (to_string (js_prop x ''id'')) (Single (duplicate_msg x first)) e)
      | None \<Rightarrow> (obj_set d (to_string (js_prop x ''id'')) x, e))"
  by (simp add: add_record_def Let_def)

lemma add_records_related:
  assumes Q: "error_closed Q"
  shows "Q e e' \<Longrightarrow>
     fst (fold add_record ent (d, e)) = fst (fold add_record ent (d, e')) \<and>
     Q (snd (fold add_record ent (d, e))) (snd (fold add_record ent (d, e')))"
proof (induction ent arbitrary: d e e')
  case Nil
  then show ?case by simp
next
  case (Cons x ent)
  show ?case
  proof (cases "obj_get d (to_string (js_prop x ''id''))")
    case None
    with Cons.IH [OF Cons.prems, of "obj_set d (to_string (js_prop x ''id'')) x"]
    show ?thesis by (simp add: add_record_cases)
  next
    case (Some first)
    let ?i = "to_string (js_prop x ''id'')"
    let ?m = "Single (duplicate_msg x first)"
    from Q Cons.prems have "Q (error ?i ?m e) (error ?i ?m e')"
      unfolding error_closed_def by blast
    from Cons.IH [OF this, of d] Some show ?thesis by (simp add: add_record_cases)
  qed
qed


subsection \<open>The manifest only loses keys\<close>

lemma out_keys_entry:
  "set (keys (st_out (resolve_entry c comps kv s))) \<subseteq> set (keys (st_out s)) \<and>
   (distinct (keys (st_out s)) \<longrightarrow> distinct (keys (st_out (resolve_entry c comps kv s))))"
proof -
  obtain k v where kv: "kv = (k, v)" by (cases kv)
  have "set (keys (st_out (resolve_entry c comps (k, v) s))) \<subseteq> set (keys (st_out s)) \<and>
   (distinct (keys (st_out s)) \<longrightarrow> distinct (keys (st_out (resolve_entry c comps (k, v) s))))"
  proof (cases rule: resolve_entry_cases [of c comps k v s])
    case (returned p ps)
    then show ?thesis by (simp add: keys_upd)
  next
    case (thrown err ps)
    then show ?thesis by (auto simp: keys_delete distinct_delete)
  qed
  then show ?thesis by (simp add: kv)
qed

lemma out_keys_entries:
  "set (keys (st_out (fold (resolve_entry c comps) kvs s))) \<subseteq> set (keys (st_out s)) \<and>
   (distinct (keys (st_out s)) \<longrightarrow>
      distinct (keys (st_out (fold (resolve_entry c comps) kvs s))))"
proof (induction kvs arbitrary: s)
  case Nil
  show ?case by simp
next
  case (Cons kv kvs)
  from Cons.IH [of "resolve_entry c comps kv s"] out_keys_entry [of c comps kv s]
  show ?case by auto
qed

lemma out_keys_pass:
  "set (keys (st_out (resolve_pass comps c s))) \<subseteq> set (keys (st_out s)) \<and>
   (distinct (keys (st_out s)) \<longrightarrow> distinct (keys (st_out (resolve_pass comps c s))))"
  using out_keys_entries [of c comps "st_out s" "s\<lparr>st_passed := obj_set (st_passed s) (KEY c) []\<rparr>"]
  by (simp add: resolve_pass_def Let_def)

lemma out_keys_passes:
  "set (keys (st_out (fold (resolve_pass comps) cs s))) \<subseteq> set (keys (st_out s)) \<and>
   (distinct (keys (st_out s)) \<longrightarrow> distinct (keys (st_out (fold (resolve_pass comps) cs s))))"
proof (induction cs arbitrary: s)
  case Nil
  show ?case by simp
next
  case (Cons c cs)
  from Cons.IH [of "resolve_pass comps c s"] out_keys_pass [of comps c s]
  show ?case by auto
qed

lemma seed_distinct: "distinct (keys (seed d))"
proof -
  have "distinct (keys out) \<Longrightarrow> distinct (keys (fold (\<lambda>key out. obj_set out key []) ks out))"
    for ks and out :: Manifest
    by (induction ks arbitrary: out) (simp_all add: distinct_set)
  from this [of "[]" "keys d"] show ?thesis by (simp add: seed_def keys_def)
qed

subsection \<open>The error sink only grows\<close>

lemma errors_entry:
  "set (errors_at (st_errors s) key) \<subseteq> set (errors_at (st_errors (resolve_entry c comps kv s)) key)"
proof -
  obtain k v where kv: "kv = (k, v)" by (cases kv)
  have "set (errors_at (st_errors s) key) \<subseteq>
      set (errors_at (st_errors (resolve_entry c comps (k, v) s)) key)"
  proof (cases rule: resolve_entry_cases [of c comps k v s])
    case (returned p ps)
    then show ?thesis by simp
  next
    case (thrown err ps)
    then show ?thesis by (simp add: errors_at_error)
  qed
  then show ?thesis by (simp add: kv)
qed

lemma errors_entries:
  "set (errors_at (st_errors s) key) \<subseteq>
   set (errors_at (st_errors (fold (resolve_entry c comps) kvs s)) key)"
proof (induction kvs arbitrary: s)
  case Nil
  show ?case by simp
next
  case (Cons kv kvs)
  from Cons.IH [of "resolve_entry c comps kv s"] errors_entry [of s key c comps kv]
  show ?case by auto
qed

lemma errors_pass:
  "set (errors_at (st_errors s) key) \<subseteq> set (errors_at (st_errors (resolve_pass comps c s)) key)"
  using errors_entries [of "s\<lparr>st_passed := obj_set (st_passed s) (KEY c) []\<rparr>" key c comps "st_out s"]
  by (simp add: resolve_pass_def Let_def)

lemma errors_passes:
  "set (errors_at (st_errors s) key) \<subseteq>
   set (errors_at (st_errors (fold (resolve_pass comps) cs s)) key)"
proof (induction cs arbitrary: s)
  case Nil
  show ?case by simp
next
  case (Cons c cs)
  from Cons.IH [of "resolve_pass comps c s"] errors_pass [of s key comps c]
  show ?case by auto
qed

subsection \<open>The first loop\<close>

lemma add_records_keep:
  "obj_get d i = Some r \<Longrightarrow> obj_get (fst (fold add_record ent (d, e))) i = Some r"
proof (induction ent arbitrary: d e)
  case Nil
  then show ?case by simp
next
  case (Cons x ent)
  show ?case
  proof (cases "obj_get d (to_string (js_prop x ''id''))")
    case None
    with Cons.prems have "obj_get (obj_set d (to_string (js_prop x ''id'')) x) i = Some r"
      by (auto simp: obj_get_set)
    from Cons.IH [OF this] None show ?thesis by (simp add: add_record_cases)
  next
    case (Some first)
    with Cons.IH [OF Cons.prems] show ?thesis by (simp add: add_record_cases)
  qed
qed

lemma add_records_absent:
  "obj_get d i = None \<Longrightarrow> \<forall>x\<in>set xs. to_string (js_prop x ''id'') \<noteq> i \<Longrightarrow>
   obj_get (fst (fold add_record xs (d, e))) i = None"
proof (induction xs arbitrary: d e)
  case Nil
  then show ?case by simp
next
  case (Cons x xs)
  show ?case
  proof (cases "obj_get d (to_string (js_prop x ''id''))")
    case None
    from Cons.prems have "obj_get (obj_set d (to_string (js_prop x ''id'')) x) i = None"
      by (auto simp: obj_get_set)
    from Cons.IH [OF this] Cons.prems None show ?thesis by (simp add: add_record_cases)
  next
    case (Some first)
    with Cons.IH [OF Cons.prems(1)] Cons.prems(2) show ?thesis by (simp add: add_record_cases)
  qed
qed

lemma add_records_grow:
  "set (errors_at e key) \<subseteq> set (errors_at (snd (fold add_record ent (d, e))) key)"
proof (induction ent arbitrary: d e)
  case Nil
  show ?case by simp
next
  case (Cons x ent)
  show ?case
  proof (cases "obj_get d (to_string (js_prop x ''id''))")
    case None
    with Cons.IH [of e "obj_set d (to_string (js_prop x ''id'')) x"] show ?thesis
      by (simp add: add_record_cases)
  next
    case (Some first)
    with Cons.IH [of "error (to_string (js_prop x ''id'')) (Single (duplicate_msg x first)) e" d]
    show ?thesis by (auto simp: add_record_cases errors_at_error)
  qed
qed

lemma add_records_fst:
  "fst (fold add_record ent (d, e)) = fst (fold add_record ent (d, e'))"
  using add_records_related [OF error_closed_any, where e = e and e' = e' and ent = ent and d = d]
  by simp

lemma resolve_with_same_records:
  assumes "fst (fold add_record ent ([], e)) = fst (fold add_record ent' ([], e'))"
  shows "st_out (resolve_with comps ent e) = st_out (resolve_with comps ent' e')"
proof -
  obtain d e1 where 1: "fold add_record ent ([], e) = (d, e1)"
    by (cases "fold add_record ent ([], e)")
  obtain d' e1' where 2: "fold add_record ent' ([], e') = (d', e1')"
    by (cases "fold add_record ent' ([], e')")
  from assms 1 2 have d: "d = d'" by simp
  have "related (\<lambda>a b. True) \<lparr>st_d = d, st_out = seed d, st_passed = [], st_errors = e1\<rparr>
      \<lparr>st_d = d, st_out = seed d, st_passed = [], st_errors = e1'\<rparr>"
    by (simp add: related_def)
  with error_closed_any have "related (\<lambda>a b. True)
      (fold (resolve_pass (map ComponentInfo.truncate comps)) comps
         \<lparr>st_d = d, st_out = seed d, st_passed = [], st_errors = e1\<rparr>)
      (fold (resolve_pass (map ComponentInfo.truncate comps)) comps
         \<lparr>st_d = d, st_out = seed d, st_passed = [], st_errors = e1'\<rparr>)"
    by (rule related_passes)
  then show ?thesis unfolding resolve_with_def 1 2 d [symmetric] by (simp add: related_def)
qed

subsection \<open>Eviction\<close>

lemma set_obj_upd: "p \<in> set (obj_upd ob k v) \<Longrightarrow> p \<in> set ob \<or> p = (k, v)"
  by (auto simp: obj_upd_def split: if_splits)

lemma set_obj_set: "p \<in> set (obj_set ob k v) \<Longrightarrow> p \<in> set ob \<or> p = (k, v)"
  by (auto simp: obj_set_def set_insert dest: set_obj_upd split: if_splits)

lemma obj_get_mem: "obj_get ob k = Some v \<Longrightarrow> (k, v) \<in> set ob"
  by (simp add: obj_get_def map_of_SomeD)

lemma passed_ok_reset:
  assumes "passed_ok ps"
  shows "passed_ok (obj_set ps k [])"
proof -
  have "distinct (snd p)" if "p \<in> set (obj_set ps k [])" for p
  proof -
    from that have "p \<in> set ps \<or> p = (k, [])" by (rule set_obj_set)
    with assms show ?thesis unfolding passed_ok_def by auto
  qed
  with assms show ?thesis unfolding passed_ok_def by (simp add: distinct_set)
qed

lemma passed_ok_push:
  assumes "passed_ok ps" and "obj_get ps k = Some ids" and "i \<notin> set ids"
  shows "passed_ok (obj_upd ps k (ids @ [i]))"
proof -
  from assms(2) have "(k, ids) \<in> set ps" by (rule obj_get_mem)
  with assms(1) have "distinct ids" unfolding passed_ok_def by fastforce
  with assms(3) have "distinct (ids @ [i])" by simp
  have "distinct (snd p)" if "p \<in> set (obj_upd ps k (ids @ [i]))" for p
  proof -
    from that have "p \<in> set ps \<or> p = (k, ids @ [i])" by (rule set_obj_upd)
    with assms(1) \<open>distinct (ids @ [i])\<close> show ?thesis unfolding passed_ok_def by auto
  qed
  with assms(1) show ?thesis unfolding passed_ok_def by (simp add: keys_upd)
qed

lemma keys_unpass: "keys (unpass i ps) = keys ps"
  by (simp add: unpass_def keys_def comp_def)

lemma passed_ok_unpass:
  assumes "passed_ok ps"
  shows "passed_ok (unpass i ps)"
proof -
  have "distinct (snd p)" if "p \<in> set (unpass i ps)" for p
    using that assms unfolding passed_ok_def by (auto simp: unpass_def)
  with assms show ?thesis unfolding passed_ok_def by (simp add: keys_unpass)
qed

lemma unpass_removes: "passed_ok ps \<Longrightarrow> p \<in> set (unpass i ps) \<Longrightarrow> i \<notin> set (snd p)"
  unfolding passed_ok_def by (auto simp: unpass_def)

lemma obj_get_unpass: "obj_get (unpass i ps) k = map_option (remove1 i) (obj_get ps k)"
  by (induction ps) (auto simp: unpass_def obj_get_def)

lemma pass_inv_entry:
  assumes inv: "pass_inv c ((k, v) # rest) s"
  shows "pass_inv c rest (resolve_entry c comps (k, v) s)"
proof -
  from inv have ok: "passed_ok (st_passed s)" and d: "distinct (map fst rest)"
    and kr: "k \<notin> fst ` set rest"
    and fresh: "\<And>ids. obj_get (st_passed s) (KEY c) = Some ids \<Longrightarrow>
        k \<notin> set ids \<and> set ids \<inter> fst ` set rest = {}"
    unfolding pass_inv_def by auto
  have step: "passed_ok ps \<and>
      (\<forall>ids. obj_get ps (KEY c) = Some ids \<longrightarrow> set ids \<subseteq> insert k (- fst ` set rest))"
    if "ps = st_passed s \<or> (\<exists>ids. obj_get (st_passed s) (KEY c) = Some ids \<and>
          ps = obj_upd (st_passed s) (KEY c) (ids @ [k]))" for ps
    using that
  proof
    assume "ps = st_passed s"
    with ok fresh show ?thesis by auto
  next
    assume "\<exists>ids. obj_get (st_passed s) (KEY c) = Some ids \<and>
          ps = obj_upd (st_passed s) (KEY c) (ids @ [k])"
    then obtain ids where g: "obj_get (st_passed s) (KEY c) = Some ids"
      and ps: "ps = obj_upd (st_passed s) (KEY c) (ids @ [k])" by blast
    from fresh [OF g] have f: "k \<notin> set ids" "set ids \<inter> fst ` set rest = {}" by simp_all
    from ok g f(1) have "passed_ok ps" unfolding ps by (rule passed_ok_push)
    moreover from g have "obj_get ps (KEY c) = Some (ids @ [k])"
      unfolding ps by (simp add: obj_get_upd obj_has_get)
    ultimately show ?thesis using f(2) by auto
  qed
  show ?thesis
  proof (cases rule: resolve_entry_cases [of c comps k v s])
    case (returned p ps)
    from step [OF returned(2)] kr d show ?thesis
      unfolding pass_inv_def returned(1) by auto
  next
    case (thrown err ps)
    from step [OF thrown(2)] have ok': "passed_ok (unpass k ps)"
      and "\<forall>ids. obj_get (unpass k ps) (KEY c) = Some ids \<longrightarrow> set ids \<subseteq> insert k (- fst ` set rest)"
      by (auto simp: passed_ok_unpass obj_get_unpass dest: notin_set_remove1)
    with kr d show ?thesis
      unfolding pass_inv_def thrown(1) by auto
  qed
qed

lemma pass_inv_entries:
  "pass_inv c (kvs @ rest) s \<Longrightarrow> pass_inv c rest (fold (resolve_entry c comps) kvs s)"
proof (induction kvs arbitrary: s)
  case Nil
  then show ?case by simp
next
  case (Cons kv kvs)
  obtain k v where kv: "kv = (k, v)" by (cases kv)
  from Cons.prems have "pass_inv c (kvs @ rest) (resolve_entry c comps (k, v) s)"
    unfolding kv by (simp add: pass_inv_entry)
  from Cons.IH [OF this] show ?case by (simp add: kv)
qed

lemma pass_inv_start:
  assumes "passed_ok (st_passed s)" and "distinct (keys (st_out s))"
  shows "pass_inv c (st_out s) (s\<lparr>st_passed := obj_set (st_passed s) (KEY c) []\<rparr>)"
  using assms by (simp add: pass_inv_def passed_ok_reset obj_get_set keys_def)

lemma passed_ok_pass:
  assumes "passed_ok (st_passed s)" and "distinct (keys (st_out s))"
  shows "passed_ok (st_passed (resolve_pass comps c s))"
proof -
  from assms have "pass_inv c (st_out s @ []) (s\<lparr>st_passed := obj_set (st_passed s) (KEY c) []\<rparr>)"
    by (simp add: pass_inv_start)
  then have "pass_inv c [] (fold (resolve_entry c comps) (st_out s)
      (s\<lparr>st_passed := obj_set (st_passed s) (KEY c) []\<rparr>))"
    by (rule pass_inv_entries)
  then show ?thesis by (simp add: resolve_pass_def Let_def pass_inv_def)
qed

text \<open>Both invariants hold before every pass of a run.\<close>

lemma run_invariants:
  "passed_ok (st_passed s) \<and> distinct (keys (st_out s)) \<Longrightarrow>
   passed_ok (st_passed (fold (resolve_pass comps) cs s)) \<and>
   distinct (keys (st_out (fold (resolve_pass comps) cs s)))"
proof (induction cs arbitrary: s)
  case Nil
  then show ?case by simp
next
  case (Cons c cs)
  from Cons.prems have "passed_ok (st_passed (resolve_pass comps c s)) \<and>
      distinct (keys (st_out (resolve_pass comps c s)))"
    using passed_ok_pass [of s comps c] out_keys_pass [of comps c s] by simp
  from Cons.IH [OF this] show ?case by simp
qed

lemma initial_invariants:
  "passed_ok (st_passed \<lparr>st_d = d, st_out = seed d, st_passed = [], st_errors = e\<rparr>) \<and>
   distinct (keys (st_out \<lparr>st_d = d, st_out = seed d, st_passed = [], st_errors = e\<rparr>))"
  by (simp add: passed_ok_def keys_def seed_distinct [unfolded keys_def])

subsection \<open>Where the messages of the error sink come from\<close>

lemma origin_entry:
  assumes "m \<in> set (errors_at (st_errors (resolve_entry c comps kv s)) key)"
  shows "m \<in> set (errors_at (st_errors s) key) \<or> thrown_by [c] m"
proof -
  obtain k v where kv: "kv = (k, v)" by (cases kv)
  show ?thesis
  proof (cases rule: resolve_entry_cases [of c comps k v s])
    case (returned p ps)
    with assms show ?thesis by (simp add: kv)
  next
    case (thrown err ps)
    from thrown(3) have "thrown_by [c] err" unfolding thrown_by_def by auto
    with assms thrown(1) show ?thesis
      by (auto simp: kv errors_at_error split: if_splits)
  qed
qed

lemma origin_entries:
  "m \<in> set (errors_at (st_errors (fold (resolve_entry c comps) kvs s)) key) \<Longrightarrow>
   m \<in> set (errors_at (st_errors s) key) \<or> thrown_by [c] m"
proof (induction kvs arbitrary: s)
  case Nil
  then show ?case by simp
next
  case (Cons kv kvs)
  from Cons.IH [of "resolve_entry c comps kv s"] Cons.prems
  have "m \<in> set (errors_at (st_errors (resolve_entry c comps kv s)) key) \<or> thrown_by [c] m"
    by simp
  with origin_entry [of m c comps kv s key] show ?case by blast
qed

lemma origin_pass:
  "m \<in> set (errors_at (st_errors (resolve_pass comps c s)) key) \<Longrightarrow>
   m \<in> set (errors_at (st_errors s) key) \<or> thrown_by [c] m"
  using origin_entries [of m c comps "st_out s"
      "s\<lparr>st_passed := obj_set (st_passed s) (KEY c) []\<rparr>" key]
  by (simp add: resolve_pass_def Let_def)

lemma thrown_by_Cons: "thrown_by (c # cs) m \<longleftrightarrow> thrown_by [c] m \<or> thrown_by cs m"
  by (auto simp: thrown_by_def)

lemma origin_passes:
  "m \<in> set (errors_at (st_errors (fold (resolve_pass comps) cs s)) key) \<Longrightarrow>
   m \<in> set (errors_at (st_errors s) key) \<or> thrown_by cs m"
proof (induction cs arbitrary: s)
  case Nil
  then show ?case by simp
next
  case (Cons c cs)
  from Cons.IH [of "resolve_pass comps c s"] Cons.prems
  have "m \<in> set (errors_at (st_errors (resolve_pass comps c s)) key) \<or> thrown_by cs m"
    by simp
  with origin_pass [of m comps c s key] show ?case
    unfolding thrown_by_Cons [of c cs m] by blast
qed

lemma errors_origin:
  assumes "m \<in> set (errors_at (snd (resolveEntities list ent errors)) key)"
  shows "m \<in> set (errors_at (snd (fold add_record ent ([], errors))) key) \<or>
         thrown_by (Component_all list) m"
proof -
  obtain d e1 where 1: "fold add_record ent ([], errors) = (d, e1)"
    by (cases "fold add_record ent ([], errors)")
  from assms have "m \<in> set (errors_at (st_errors
      (fold (resolve_pass (map ComponentInfo.truncate (Component_all list))) (Component_all list)
         \<lparr>st_d = d, st_out = seed d, st_passed = [], st_errors = e1\<rparr>)) key)"
    unfolding resolveEntities_def resolve_with_def Let_def 1 by simp
  from origin_passes [OF this] show ?thesis by (simp add: 1)
qed

subsection \<open>Ids and the members of Object.prototype\<close>

text \<open>
  On keys that name no inherited member, and on keys the sink has as its own, \<open>error_call\<close>
  is \<open>error\<close>; on the other keys it throws. On records whose ids name no inherited member
  the first loop is the iteration of \<open>add_record\<close>, and a call of \<open>resolveEntities\<close> returns
  what \<open>resolveEntities\<close> computes.
\<close>

lemmas call_defs = resolveEntities_call_def has_in_def inherited_def error_call_def
  duplicate_text_def inherited_name_def not_a_function_def

lemma has_in_plain: "k \<notin> set inherited \<Longrightarrow> has_in ob k \<longleftrightarrow> obj_has ob k"
  by (simp add: has_in_def)

lemma error_call_plain:
  assumes "key \<notin> set inherited \<or> obj_has errors key"
  shows "error_call key err errors = Inr (error key err errors)"
proof (cases "obj_has errors key")
  case True
  then obtain es where "obj_get errors key = Some es" by (auto simp: obj_has_get)
  with True show ?thesis
    by (simp add: error_call_def error_def has_in_def or_empty_def Let_def)
next
  case False
  with assms have "\<not> has_in errors key" by (simp add: has_in_def)
  moreover from False have "obj_get errors key = None" by (simp add: obj_has_get)
  ultimately show ?thesis
    by (simp add: error_call_def error_def obj_get_set or_empty_def Let_def)
qed

lemma error_call_throws:
  assumes "key \<in> set inherited" and "\<not> obj_has errors key"
  shows "error_call key err errors = Inl not_a_function"
proof -
  from assms(2) have "obj_get errors key = None" by (simp add: obj_has_get)
  with assms(1) show ?thesis by (simp add: error_call_def has_in_def Let_def)
qed

lemma duplicate_text_plain:
  "obj_get d (to_string (js_prop e ''id'')) = Some first \<Longrightarrow>
   duplicate_text e d = duplicate_msg e first"
  by (simp add: duplicate_text_def duplicate_msg_def Let_def)

lemma first_loop_plain:
  "\<forall>e\<in>set ent. to_string (js_prop e ''id'') \<notin> set inherited \<Longrightarrow>
   first_loop ent d errors =
     (Inr (fst (fold add_record ent (d, errors))), snd (fold add_record ent (d, errors)))"
proof (induction ent arbitrary: d errors)
  case Nil
  show ?case by simp
next
  case (Cons e ent)
  let ?i = "to_string (js_prop e ''id'')"
  from Cons.prems have i: "?i \<notin> set inherited" and rest: "\<forall>e\<in>set ent. to_string (js_prop e ''id'') \<notin> set inherited"
    by simp_all
  show ?case
  proof (cases "obj_get d ?i")
    case None
    then have "\<not> has_in d ?i" using i by (simp add: has_in_def obj_has_get)
    with None Cons.IH [OF rest] show ?thesis by (simp add: add_record_cases Let_def)
  next
    case (Some first)
    then have "has_in d ?i" by (simp add: has_in_def obj_has_get)
    moreover have "error_call ?i (Single (duplicate_text e d)) errors =
        Inr (error ?i (Single (duplicate_msg e first)) errors)"
      using i Some by (simp add: error_call_plain duplicate_text_plain)
    ultimately show ?thesis using Some Cons.IH [OF rest] by (simp add: add_record_cases Let_def)
  qed
qed

lemma resolveEntities_call_plain:
  assumes "\<forall>e\<in>set ent. to_string (js_prop e ''id'') \<notin> set inherited"
  shows "resolveEntities_call list ent errors =
           (Inr (fst (resolveEntities list ent errors)), snd (resolveEntities list ent errors))"
  unfolding resolveEntities_call_def first_loop_plain [OF assms]
  by (simp add: resolveEntities_def resolve_with_def Let_def split: prod.splits)

lemma first_loop_keys:
  "first_loop ent d errors = (Inr d', errors') \<Longrightarrow> k \<in> set (keys d') \<Longrightarrow>
   k \<in> set (keys d) \<or> k \<notin> set inherited"
proof (induction ent arbitrary: d errors)
  case Nil
  then show ?case by simp
next
  case (Cons e ent)
  let ?i = "to_string (js_prop e ''id'')"
  show ?case
  proof (cases "has_in d ?i")
    case True
    show ?thesis
    proof (cases "error_call ?i (Single (duplicate_text e d)) errors")
      case (Inl t)
      with True Cons.prems(1) show ?thesis by (simp add: Let_def)
    next
      case (Inr errors1)
      with True Cons.prems(1) have "first_loop ent d errors1 = (Inr d', errors')"
        by (simp add: Let_def)
      from Cons.IH [OF this Cons.prems(2)] show ?thesis .
    qed
  next
    case False
    with Cons.prems(1) have "first_loop ent (obj_set d ?i e) errors = (Inr d', errors')"
      by (simp add: Let_def)
    from Cons.IH [OF this Cons.prems(2)] have "k \<in> set (keys (obj_set d ?i e)) \<or> k \<notin> set inherited" .
    with False show ?thesis by (auto simp: keys_set has_in_def)
  qed
qed

lemma keys_error: "set (keys (error key err errors)) = insert key (set (keys errors))"
  by (auto simp: error_def keys_set Let_def)

lemma add_records_sink_keys:
  "k \<in> set (keys (snd (fold add_record xs (d, e)))) \<Longrightarrow>
   k \<in> set (keys e) \<or> k \<in> (\<lambda>x. to_string (js_prop x ''id'')) ` set xs"
proof (induction xs arbitrary: d e)
  case Nil
  then show ?case by simp
next
  case (Cons x xs)
  show ?case
  proof (cases "obj_get d (to_string (js_prop x ''id''))")
    case None
    with Cons.prems have "k \<in> set (keys (snd (fold add_record xs (obj_set d (to_string (js_prop x ''id'')) x, e))))"
      by (simp add: add_record_cases)
    from Cons.IH [OF this] show ?thesis by auto
  next
    case (Some first)
    with Cons.prems have "k \<in> set (keys (snd (fold add_record xs
        (d, error (to_string (js_prop x ''id'')) (Single (duplicate_msg x first)) e))))"
      by (simp add: add_record_cases)
    from Cons.IH [OF this] show ?thesis by (auto simp: keys_error)
  qed
qed

lemma first_loop_append:
  "first_loop (xs @ ys) d errors =
     (case first_loop xs d errors of
        (Inl t, errors1) \<Rightarrow> (Inl t, errors1)
      | (Inr d1, errors1) \<Rightarrow> first_loop ys d1 errors1)"
  by (induction xs arbitrary: d errors) (simp_all add: Let_def split: sum.splits)

lemma inherited_id_throws:
  assumes xs: "\<forall>x\<in>set xs. to_string (js_prop x ''id'') \<notin> set inherited"
    and e: "to_string (js_prop e ''id'') \<in> set inherited"
    and sink: "\<not> obj_has errors (to_string (js_prop e ''id''))"
  shows "resolveEntities_call list (xs @ e # ys) errors =
           (Inl not_a_function, snd (fold add_record xs ([], errors)))"
proof -
  let ?i = "to_string (js_prop e ''id'')"
  let ?d1 = "fst (fold add_record xs ([], errors))"
  let ?E1 = "snd (fold add_record xs ([], errors))"
  have "?i \<notin> set (keys ?E1)"
  proof
    assume "?i \<in> set (keys ?E1)"
    then have "?i \<in> set (keys errors) \<or> ?i \<in> (\<lambda>x. to_string (js_prop x ''id'')) ` set xs"
      by (rule add_records_sink_keys)
    with sink xs e show False by (auto simp: obj_has_keys)
  qed
  then have "\<not> obj_has ?E1 ?i" by (simp add: obj_has_keys)
  with e have "error_call ?i (Single (duplicate_text e ?d1)) ?E1 = Inl not_a_function"
    by (rule error_call_throws)
  moreover from e have "has_in ?d1 ?i" by (simp add: has_in_def)
  ultimately have "first_loop (e # ys) ?d1 ?E1 = (Inl not_a_function, ?E1)"
    by (simp add: Let_def)
  then have "first_loop (xs @ e # ys) [] errors = (Inl not_a_function, ?E1)"
    by (simp add: first_loop_append first_loop_plain [OF xs])
  then show ?thesis by (simp add: resolveEntities_call_def)
qed

lemma seed_keys: "set (keys (seed d)) = set (keys d)"
proof -
  have "set (keys (fold (\<lambda>key out. obj_set out key []) ks out)) = set ks \<union> set (keys out)"
    for ks and out :: Manifest
    by (induction ks arbitrary: out) (auto simp: keys_set)
  from this [of "keys d" "[]"] show ?thesis by (simp add: seed_def keys_def)
qed

lemma manifest_ids_plain:
  assumes "resolveEntities_call list ent errors = (Inr m, E)"
  shows "set (keys m) \<inter> set inherited = {}"
proof -
  from assms obtain d errors1 where f: "first_loop ent [] errors = (Inr d, errors1)"
    by (auto simp: resolveEntities_call_def split: prod.splits sum.splits)
  let ?init = "\<lparr>st_d = d, st_out = seed d, st_passed = [], st_errors = errors1\<rparr>"
  from assms f have m: "m = st_out (fold (resolve_pass (map ComponentInfo.truncate (Component_all list)))
      (Component_all list) ?init)"
    by (simp add: resolveEntities_call_def Let_def)
  have "set (keys m) \<subseteq> set (keys (seed d))"
    unfolding m
    using out_keys_passes [of "map ComponentInfo.truncate (Component_all list)" "Component_all list" ?init]
    by simp
  moreover have "set (keys (seed d)) = set (keys d)" by (rule seed_keys)
  moreover have "k \<notin> set inherited" if "k \<in> set (keys d)" for k
    using first_loop_keys [OF f that] by (simp add: keys_def)
  ultimately show ?thesis by blast
qed

text \<open>
  What a call can throw, and where the messages of the sink come from after a call.
\<close>

lemma first_loop_throws_only:
  "first_loop ent d errors = (Inl t, errors') \<Longrightarrow> t = not_a_function"
proof (induction ent arbitrary: d errors)
  case Nil
  then show ?case by simp
next
  case (Cons e ent)
  let ?i = "to_string (js_prop e ''id'')"
  show ?case
  proof (cases "has_in d ?i")
    case True
    show ?thesis
    proof (cases "error_call ?i (Single (duplicate_text e d)) errors")
      case (Inl t')
      then have "t' = not_a_function"
        by (simp add: error_call_def Let_def split: option.splits)
      with Inl True Cons.prems show ?thesis by (simp add: Let_def)
    next
      case (Inr errors1)
      with True Cons.prems have "first_loop ent d errors1 = (Inl t, errors')"
        by (simp add: Let_def)
      then show ?thesis by (rule Cons.IH)
    qed
  next
    case False
    with Cons.prems have "first_loop ent (obj_set d ?i e) errors = (Inl t, errors')"
      by (simp add: Let_def)
    then show ?thesis by (rule Cons.IH)
  qed
qed

lemma errors_origin_call:
  assumes "m \<in> set (errors_at (snd (resolveEntities_call list ent errors)) key)"
  shows "m \<in> set (errors_at (snd (first_loop ent [] errors)) key) \<or>
         thrown_by (Component_all list) m"
proof (cases "first_loop ent [] errors")
  case (Pair r e1)
  show ?thesis
  proof (cases r)
    case (Inl t)
    with Pair assms show ?thesis by (simp add: resolveEntities_call_def)
  next
    case (Inr d)
    with Pair assms have "m \<in> set (errors_at (st_errors
        (fold (resolve_pass (map ComponentInfo.truncate (Component_all list))) (Component_all list)
           \<lparr>st_d = d, st_out = seed d, st_passed = [], st_errors = e1\<rparr>)) key)"
      by (simp add: resolveEntities_call_def Let_def)
    from origin_passes [OF this] Pair show ?thesis by simp
  qed
qed

lemma call_throws_only:
  "fst (resolveEntities_call list ent errors) = Inl t \<Longrightarrow> t = not_a_function"
  using first_loop_throws_only [of ent "[]" errors t]
  by (auto simp: resolveEntities_call_def Let_def split: prod.splits sum.splits)

text \<open>
  The duplicate check on the own properties of \<open>d\<close>. Let \<open>e1\<close> be the first record of the
  input with the id \<open>i\<close> and \<open>e2\<close> a later record with the same id. The iteration of
  \<open>add_record\<close> keeps \<open>e1\<close> under \<open>i\<close>; the manifest is the one of the input without \<open>e2\<close>; the
  manifest has every id once; and the sink holds, under \<open>i\<close>, the duplicate-id message with
  the display names of \<open>e2\<close> and \<open>e1\<close>.
\<close>

lemma first_record_kept:
  assumes id1: "to_string (js_prop e1 ''id'') = i" and id2: "to_string (js_prop e2 ''id'') = i"
    and first: "\<forall>x\<in>set xs. to_string (js_prop x ''id'') \<noteq> i"
  shows "obj_get (fst (fold add_record (xs @ e1 # ys @ e2 # zs) ([], errors))) i = Some e1 \<and>
         fst (resolveEntities list (xs @ e1 # ys @ e2 # zs) errors) =
           fst (resolveEntities list (xs @ e1 # ys @ zs) errors) \<and>
         distinct (keys (fst (resolveEntities list (xs @ e1 # ys @ e2 # zs) errors))) \<and>
         ''Duplicate id '' @ i @ [CHR 0x0A] @ to_string (js_prop e2 ''name'') @ [CHR 0x0A] @
             to_string (js_prop e1 ''name'')
           \<in> set (errors_at (snd (resolveEntities list (xs @ e1 # ys @ e2 # zs) errors)) i)"
proof -
  let ?ent = "xs @ e1 # ys @ e2 # zs"
  let ?msg = "''Duplicate id '' @ i @ [CHR 0x0A] @ to_string (js_prop e2 ''name'') @ [CHR 0x0A] @
             to_string (js_prop e1 ''name'')"
  obtain d1 E1 where s1: "fold add_record xs ([], errors) = (d1, E1)"
    by (cases "fold add_record xs ([], errors)")
  have "obj_get (fst (fold add_record xs ([], errors))) i = None"
    using first by (intro add_records_absent) (simp_all add: obj_get_def)
  with s1 have n1: "obj_get d1 i = None" by simp
  let ?d2 = "obj_set d1 i e1"
  from n1 id1 have s2: "add_record e1 (d1, E1) = (?d2, E1)" by (simp add: add_record_cases)
  have g2: "obj_get ?d2 i = Some e1" by (simp add: obj_get_set)
  obtain d3 E3 where s3: "fold add_record ys (?d2, E1) = (d3, E3)"
    by (cases "fold add_record ys (?d2, E1)")
  from add_records_keep [OF g2, of ys E1] s3 have g3: "obj_get d3 i = Some e1" by simp
  let ?E4 = "error i (Single (duplicate_msg e2 e1)) E3"
  from g3 id2 have s4: "add_record e2 (d3, E3) = (d3, ?E4)" by (simp add: add_record_cases)
  have msg: "duplicate_msg e2 e1 = ?msg" by (simp add: duplicate_msg_def id2)
  have m4: "?msg \<in> set (errors_at ?E4 i)" by (simp add: errors_at_error msg)
  have all: "fold add_record ?ent ([], errors) = fold add_record zs (d3, ?E4)"
    by (simp add: s1 s2 s3 s4)
  have without: "fold add_record (xs @ e1 # ys @ zs) ([], errors) = fold add_record zs (d3, E3)"
    by (simp add: s1 s2 s3)
  have same_d: "fst (fold add_record ?ent ([], errors)) =
      fst (fold add_record (xs @ e1 # ys @ zs) ([], errors))"
    unfolding all without by (rule add_records_fst)
  have a: "obj_get (fst (fold add_record ?ent ([], errors))) i = Some e1"
    unfolding all using g3 by (rule add_records_keep)
  have b: "fst (resolveEntities list ?ent errors) =
      fst (resolveEntities list (xs @ e1 # ys @ zs) errors)"
    using resolve_with_same_records [OF same_d] by (simp add: resolveEntities_def Let_def)
  obtain d5 E5 where s5: "fold add_record ?ent ([], errors) = (d5, E5)"
    by (cases "fold add_record ?ent ([], errors)")
  let ?init = "\<lparr>st_d = d5, st_out = seed d5, st_passed = [], st_errors = E5\<rparr>"
  let ?final = "fold (resolve_pass (map ComponentInfo.truncate (Component_all list)))
      (Component_all list) ?init"
  have run: "resolveEntities list ?ent errors = (st_out ?final, st_errors ?final)"
    unfolding resolveEntities_def resolve_with_def Let_def s5 by simp
  have c: "distinct (keys (fst (resolveEntities list ?ent errors)))"
    unfolding run
    using out_keys_passes [of "map ComponentInfo.truncate (Component_all list)" "Component_all list" ?init]
    by (simp add: seed_distinct)
  from m4 add_records_grow [of ?E4 i zs d3] all s5 have "?msg \<in> set (errors_at E5 i)"
    by auto
  with errors_passes [of ?init i
      "map ComponentInfo.truncate (Component_all list)" "Component_all list"]
  have d: "?msg \<in> set (errors_at (snd (resolveEntities list ?ent errors)) i)"
    unfolding run by auto
  from a b c d show ?thesis by blast
qed

text \<open>
  The same for a call of \<open>resolveEntities\<close>, when no id of the input names a member of
  \<open>Object.prototype\<close>: the call returns, the first loop keeps \<open>e1\<close> under \<open>i\<close>, the manifest
  is the one returned for the input without \<open>e2\<close> and has every id once, and the sink holds
  the duplicate-id message under \<open>i\<close>.
\<close>

lemma first_record_wins:
  assumes ids: "\<forall>x\<in>set (xs @ e1 # ys @ e2 # zs). to_string (js_prop x ''id'') \<notin> set inherited"
    and id1: "to_string (js_prop e1 ''id'') = i" and id2: "to_string (js_prop e2 ''id'') = i"
    and first: "\<forall>x\<in>set xs. to_string (js_prop x ''id'') \<noteq> i"
  shows "\<exists>d m E. fst (first_loop (xs @ e1 # ys @ e2 # zs) [] errors) = Inr d \<and>
           obj_get d i = Some e1 \<and>
           resolveEntities_call list (xs @ e1 # ys @ e2 # zs) errors = (Inr m, E) \<and>
           fst (resolveEntities_call list (xs @ e1 # ys @ zs) errors) = Inr m \<and>
           distinct (keys m) \<and>
           ''Duplicate id '' @ i @ [CHR 0x0A] @ to_string (js_prop e2 ''name'') @ [CHR 0x0A] @
               to_string (js_prop e1 ''name'') \<in> set (errors_at E i)"
proof -
  let ?ent = "xs @ e1 # ys @ e2 # zs"
  from ids have ids': "\<forall>x\<in>set (xs @ e1 # ys @ zs). to_string (js_prop x ''id'') \<notin> set inherited"
    by auto
  let ?m = "fst (resolveEntities list ?ent errors)"
  let ?E = "snd (resolveEntities list ?ent errors)"
  let ?d = "fst (fold add_record ?ent ([], errors))"
  note k = first_record_kept [OF id1 id2 first, of ys zs errors list]
  from k have a: "obj_get ?d i = Some e1" by (rule conjunct1)
  from k have b: "?m = fst (resolveEntities list (xs @ e1 # ys @ zs) errors)"
    and c: "distinct (keys ?m)"
    and d: "''Duplicate id '' @ i @ [CHR 0x0A] @ to_string (js_prop e2 ''name'') @ [CHR 0x0A] @
               to_string (js_prop e1 ''name'') \<in> set (errors_at ?E i)"
    by blast+
  have 1: "fst (first_loop ?ent [] errors) = Inr ?d"
    by (simp add: first_loop_plain [OF ids])
  have 2: "resolveEntities_call list ?ent errors = (Inr ?m, ?E)"
    using ids by (rule resolveEntities_call_plain)
  have 3: "fst (resolveEntities_call list (xs @ e1 # ys @ zs) errors) = Inr ?m"
    unfolding b by (simp add: resolveEntities_call_plain [OF ids'])
  from 1 a 2 3 c d show ?thesis by blast
qed

section \<open>The claims\<close>

text \<open>
  C1, as the code has it. A dependency cycle is not rejected: \<open>Component.all()\<close> returns an
  order. With pairwise distinct keys, every component of a set of registered components in
  which each member names the key of a member in \<open>REQUIRES\<close> or \<open>WAIT_FOR\<close> (a cycle is such
  a set) is missing from that order. Nothing is reported: every message of the error sink
  after a run was put there by the first loop or thrown by a component that is in the order.
\<close>

theorem cyclic_components_omitted:
  assumes uniq: "distinct (map KEY list)"
    and S: "S \<subseteq> set list"
    and cyc: "\<forall>c\<in>S. \<exists>d\<in>S. KEY d \<in> set (or_empty (REQUIRES c)) \<union> set (or_empty (WAIT_FOR c))"
  shows "S \<inter> set (Component_all list) = {} \<and>
         (\<forall>ent errors key m.
            m \<in> set (errors_at (snd (resolveEntities list ent errors)) key) \<longrightarrow>
            m \<in> set (errors_at (snd (fold add_record ent ([], errors))) key) \<or>
            thrown_by (Component_all list) m)"
proof -
  let ?order = "Component_all list"
  have "j < length ?order \<longrightarrow> ?order ! j \<notin> S" for j
  proof (induction j rule: less_induct)
    case (less j)
    show ?case
    proof (intro impI notI)
      assume j: "j < length ?order" and "?order ! j \<in> S"
      with cyc obtain d where d: "d \<in> S"
        and "KEY d \<in> set (or_empty (REQUIRES (?order ! j))) \<union> set (or_empty (WAIT_FOR (?order ! j)))"
        by blast
      then have "KEY d \<in> set (dependencies list (?order ! j))"
        by (simp add: declared_in_dependencies)
      with j obtain i where ij: "i < j" and ki: "KEY (?order ! i) = KEY d"
        and mi: "?order ! i \<in> set list"
        using dependency_placed_before by blast
      from d S have "d \<in> set list" by blast
      with uniq mi ki have "?order ! i = d" by (metis distinct_map_eq)
      with d less.IH [OF ij] ij j show False by simp
    qed
  qed
  then have omitted: "S \<inter> set ?order = {}" by (auto simp: in_set_conv_nth)
  have quiet: "(\<forall>ent errors key m.
      m \<in> set (errors_at (snd (resolveEntities list ent errors)) key) \<longrightarrow>
      m \<in> set (errors_at (snd (fold add_record ent ([], errors))) key) \<or>
      thrown_by (Component_all list) m)"
    using errors_origin by blast
  from omitted quiet show ?thesis by blast
qed

theorem cyclic_components_omitted_witness:
  "distinct (map KEY [plain ''a'' (Some [''b'']), plain ''b'' (Some [''a'']), plain ''brief'' None]) \<and>
   {plain ''a'' (Some [''b'']), plain ''b'' (Some [''a''])} \<subseteq>
     set [plain ''a'' (Some [''b'']), plain ''b'' (Some [''a'']), plain ''brief'' None] \<and>
   KEY (plain ''b'' (Some [''a''])) \<in> set (or_empty (REQUIRES (plain ''a'' (Some [''b''])))) \<and>
   KEY (plain ''a'' (Some [''b''])) \<in> set (or_empty (REQUIRES (plain ''b'' (Some [''a''])))) \<and>
   {plain ''a'' (Some [''b'']), plain ''b'' (Some [''a''])} \<inter>
     set (Component_all [plain ''a'' (Some [''b'']), plain ''b'' (Some [''a'']), plain ''brief'' None]) = {}"
proof -
  let ?L = "[plain ''a'' (Some [''b'']), plain ''b'' (Some [''a'']), plain ''brief'' None]"
  let ?S = "{plain ''a'' (Some [''b'']), plain ''b'' (Some [''a''])}"
  have h1: "distinct (map KEY ?L)" by (simp add: plain_def)
  have h2: "?S \<subseteq> set ?L" by simp
  have h3: "\<forall>c\<in>?S. \<exists>d\<in>?S. KEY d \<in> set (or_empty (REQUIRES c)) \<union> set (or_empty (WAIT_FOR c))"
    by (simp add: plain_def or_empty_def)
  have h4: "KEY (plain ''b'' (Some [''a''])) \<in> set (or_empty (REQUIRES (plain ''a'' (Some [''b'']))))"
    "KEY (plain ''a'' (Some [''b''])) \<in> set (or_empty (REQUIRES (plain ''b'' (Some [''a'']))))"
    by (simp_all add: plain_def or_empty_def)
  from cyclic_components_omitted [OF h1 h2 h3]
  have "?S \<inter> set (Component_all ?L) = {}" by (rule conjunct1)
  with h1 h2 h4 show ?thesis by simp
qed

text \<open>
  C1, as the claim states it, fails. With two components requiring each other and a third,
  plain one registered, the call returns: the order holds the third component alone, the
  entity \<open>x\<close> is processed by it, and the error sink stays empty.
\<close>

theorem cycle_not_rejected:
  "Component_all [plain ''a'' (Some [''b'']), plain ''b'' (Some [''a'']), plain ''brief'' None] =
     [plain ''brief'' None] \<and>
   resolveEntities [plain ''a'' (Some [''b'']), plain ''b'' (Some [''a'']), plain ''brief'' None]
     [ [(''id'', VStr ''x''), (''brief'', VStr ''short text'')] ] [] =
     ([(''x'', [(''brief'', VStr ''short text'')])], [])"
proof -
  have o: "Component_all [plain ''a'' (Some [''b'']), plain ''b'' (Some [''a'']), plain ''brief'' None] =
     [plain ''brief'' None]"
    by (simp add: eval_defs)
  show ?thesis unfolding resolveEntities_def o
    by (simp add: run_defs plain_def or_empty_def ComponentInfo.truncate_def Let_def)
qed




text \<open>
  C3. Take a pass of the component \<open>c\<close> begun in a state \<open>s\<close> in which the invariants hold (they
  hold before every pass of a run, by \<open>initial_invariants\<close> and \<open>run_invariants\<close>), and an
  entry \<open>(k, v)\<close> of the snapshot; \<open>s2\<close> is the state in which the entry is reached. If
  resolving \<open>(c, k)\<close> throws \<open>err\<close>, then in the state \<open>s3\<close> after the catch block the message is
  appended under \<open>k\<close> in the error map, \<open>k\<close> is gone from the manifest and from the id to
  record map, and no passed-set holds \<open>k\<close>. The rest of the snapshot does not hold \<open>k\<close>, and
  \<open>k\<close> is in the manifest after no later pass: no later pass visits it, and the manifest
  returned does not hold it.
\<close>

theorem failure_evicts_entity:
  assumes ok: "passed_ok (st_passed s)" and dist: "distinct (keys (st_out s))"
    and snap: "st_out s = before @ (k, v) # rest"
    and s2: "s2 = fold (resolve_entry c comps) before
                    (s\<lparr>st_passed := obj_set (st_passed s) (KEY c) []\<rparr>)"
    and thr: "Component_resolve c (context_of comps (k, v) s2) = Threw err ctx'"
    and s3: "s3 = resolve_entry c comps (k, v) s2"
  shows "st_errors s3 = error k (Single err) (st_errors s2) \<and>
         errors_at (st_errors s3) k = errors_at (st_errors s2) k @ [err] \<and>
         st_out s3 = obj_delete (st_out s2) k \<and> k \<notin> set (keys (st_out s3)) \<and>
         st_d s3 = obj_delete (st_d s2) k \<and> k \<notin> set (keys (st_d s3)) \<and>
         (\<forall>p\<in>set (st_passed s3). k \<notin> set (snd p)) \<and>
         k \<notin> fst ` set rest \<and>
         resolve_pass comps c s = fold (resolve_entry c comps) rest s3 \<and>
         (\<forall>cs. k \<notin> set (keys (st_out (fold (resolve_pass comps) cs (resolve_pass comps c s)))))"
proof -
  let ?s1 = "s\<lparr>st_passed := obj_set (st_passed s) (KEY c) []\<rparr>"
  from ok dist have "pass_inv c (before @ (k, v) # rest) ?s1"
    using pass_inv_start [of s c] by (simp add: snap)
  then have inv2: "pass_inv c ((k, v) # rest) s2"
    unfolding s2 by (rule pass_inv_entries)
  then have ok2: "passed_ok (st_passed s2)" and kr: "k \<notin> fst ` set rest"
    and fresh: "\<And>ids. obj_get (st_passed s2) (KEY c) = Some ids \<Longrightarrow> k \<notin> set ids"
    unfolding pass_inv_def by auto
  have pass: "resolve_pass comps c s = fold (resolve_entry c comps) rest s3"
    unfolding resolve_pass_def Let_def s3 s2 by (simp add: snap)
  have "st_errors s3 = error k (Single err) (st_errors s2) \<and>
      st_out s3 = obj_delete (st_out s2) k \<and> st_d s3 = obj_delete (st_d s2) k \<and>
      (\<forall>p\<in>set (st_passed s3). k \<notin> set (snd p))"
  proof (cases rule: resolve_entry_cases [of c comps k v s2])
    case (returned p ps)
    with thr show ?thesis by simp
  next
    case (thrown err' ps)
    with thr have e: "err' = err" by simp
    from thrown(2) have "passed_ok ps"
    proof
      assume "ps = st_passed s2"
      with ok2 show ?thesis by simp
    next
      assume "\<exists>ids. obj_get (st_passed s2) (KEY c) = Some ids \<and>
          ps = obj_upd (st_passed s2) (KEY c) (ids @ [k])"
      then obtain ids where g: "obj_get (st_passed s2) (KEY c) = Some ids"
        and ps: "ps = obj_upd (st_passed s2) (KEY c) (ids @ [k])" by blast
      from ok2 g fresh [OF g] show ?thesis unfolding ps by (rule passed_ok_push)
    qed
    then have "\<forall>p\<in>set (unpass k ps). k \<notin> set (snd p)"
      using unpass_removes by blast
    with thrown(1) e show ?thesis unfolding s3 by simp
  qed
  then have 1: "st_errors s3 = error k (Single err) (st_errors s2)"
    and 2: "st_out s3 = obj_delete (st_out s2) k" and 3: "st_d s3 = obj_delete (st_d s2) k"
    and 4: "\<forall>p\<in>set (st_passed s3). k \<notin> set (snd p)" by simp_all
  from 2 have k3: "k \<notin> set (keys (st_out s3))" by (simp add: keys_delete)
  from 3 have kd: "k \<notin> set (keys (st_d s3))" by (simp add: keys_delete)
  have later: "k \<notin> set (keys (st_out (fold (resolve_pass comps) cs (resolve_pass comps c s))))"
    for cs
    using out_keys_passes [of comps cs "resolve_pass comps c s"]
      out_keys_entries [of c comps rest s3] k3 unfolding pass by blast
  from 1 2 3 4 k3 kd kr pass later show ?thesis
    by (simp add: errors_at_error)
qed

theorem failure_evicts_entity_witness:
  "passed_ok (st_passed before_weapon) \<and> distinct (keys (st_out before_weapon)) \<and>
   st_out before_weapon = [] @ (''sword'', []) # [(''axe'', [(''damage'', VStr ''1d6'')])] \<and>
   Component_resolve (plain ''weapon'' (Some [''damage'']))
     (context_of [] (''sword'', [])
        (before_weapon\<lparr>st_passed := [(''damage'', [''axe'']), (''weapon'', [])]\<rparr>)) =
     Threw (violation ''sword'' ''damage'' ''weapon'')
       ((context_of [] (''sword'', [])
          (before_weapon\<lparr>st_passed := [(''damage'', [''axe'']), (''weapon'', [])]\<rparr>))
        \<lparr>passed := [(''damage'', [''axe'']), (''weapon'', [''sword''])]\<rparr>) \<and>
   resolve_entry (plain ''weapon'' (Some [''damage''])) [] (''sword'', [])
     (before_weapon\<lparr>st_passed := [(''damage'', [''axe'']), (''weapon'', [])]\<rparr>) =
     sword_evicted \<and>
   resolve_pass [] (plain ''weapon'' (Some [''damage''])) before_weapon = sword_evicted"
proof -
  let ?c = "plain ''weapon'' (Some [''damage''])"
  let ?s2 = "before_weapon\<lparr>st_passed := [(''damage'', [''axe'']), (''weapon'', [])]\<rparr>"
  let ?ctx' = "(context_of [] (''sword'', []) ?s2)
        \<lparr>passed := [(''damage'', [''axe'']), (''weapon'', [''sword''])]\<rparr>"
  have h1: "passed_ok (st_passed before_weapon)"
    by (simp add: passed_ok_def before_weapon_def keys_def)
  have h2: "distinct (keys (st_out before_weapon))"
    by (simp add: before_weapon_def keys_def)
  have h3: "st_out before_weapon = [] @ (''sword'', []) # [(''axe'', [(''damage'', VStr ''1d6'')])]"
    by (simp add: before_weapon_def)
  have h4: "?s2 = fold (resolve_entry ?c []) []
      (before_weapon\<lparr>st_passed := obj_set (st_passed before_weapon) (KEY ?c) []\<rparr>)"
    by (simp add: before_weapon_def plain_def run_defs)
  have h5: "Component_resolve ?c (context_of [] (''sword'', []) ?s2) =
      Threw (violation ''sword'' ''damage'' ''weapon'') ?ctx'"
    by (simp add: before_weapon_def plain_def run_defs or_empty_def Let_def)
  have h6: "resolve_entry ?c [] (''sword'', []) ?s2 = sword_evicted"
    unfolding resolve_entry_def h5
    by (simp add: before_weapon_def sword_evicted_def context_of_def run_defs or_empty_def Let_def)
  from failure_evicts_entity [OF h1 h2 h3 h4 h5 h6 [symmetric] ]
  have "resolve_pass [] ?c before_weapon =
      fold (resolve_entry ?c []) [(''axe'', [(''damage'', VStr ''1d6'')])] sword_evicted"
    by simp
  also have "\<dots> = sword_evicted"
    by (simp add: sword_evicted_def plain_def run_defs or_empty_def Let_def)
  finally have h7: "resolve_pass [] ?c before_weapon = sword_evicted" .
  from h1 h2 h3 h5 h6 h7 show ?thesis by simp
qed



text \<open>
  C5, as the code has it. When the trigger of a component passes, the id of the entity is
  recorded in the passed-set under the key of the component before the requirements are
  checked: whatever the call does next, the context it leaves behind has the id under that
  key. The check therefore finds the component's own key satisfied: when every other key of
  \<open>REQUIRES\<close> has the id, the call goes on to the hooks.
\<close>

theorem pass_recorded_before_check:
  assumes t: "trigger_of c ctx = Inr True"
    and p: "obj_get (passed ctx) (KEY c) = Some ids"
  shows "ctx_id ctx \<in>
           set (or_empty (obj_get (passed (left_behind (Component_resolve c ctx))) (KEY c))) \<and>
         ((\<forall>r\<in>set (or_empty (REQUIRES c)). r \<noteq> KEY c \<longrightarrow>
              (\<exists>ids'. obj_get (passed ctx) r = Some ids' \<and> ctx_id ctx \<in> set ids')) \<longrightarrow>
          Component_resolve c ctx =
            apply_hooks c (ctx\<lparr>passed := obj_upd (passed ctx) (KEY c) (ids @ [ctx_id ctx])\<rparr>))"
proof -
  let ?ps = "obj_upd (passed ctx) (KEY c) (ids @ [ctx_id ctx])"
  let ?ctx1 = "ctx\<lparr>passed := ?ps\<rparr>"
  from p have has: "obj_has (passed ctx) (KEY c)" by (simp add: obj_has_get)
  then have own: "obj_get ?ps (KEY c) = Some (ids @ [ctx_id ctx])" by (simp add: obj_get_upd)
  have r: "Component_resolve c ctx =
      (case check_requires ?ps (ctx_id ctx) (KEY c) (or_empty (REQUIRES c)) of
         Some e \<Rightarrow> Threw e ?ctx1 | None \<Rightarrow> apply_hooks c ?ctx1)"
    using t p by (simp add: Component_resolve_def Let_def)
  have "passed (left_behind (Component_resolve c ctx)) = ?ps"
  proof (cases "check_requires ?ps (ctx_id ctx) (KEY c) (or_empty (REQUIRES c))")
    case None
    with r show ?thesis by (simp add: passed_apply_hooks)
  next
    case (Some e)
    with r show ?thesis by (simp add: left_behind_def)
  qed
  with own have a: "ctx_id ctx \<in>
      set (or_empty (obj_get (passed (left_behind (Component_resolve c ctx))) (KEY c)))"
    by (simp add: or_empty_def)
  have b: "Component_resolve c ctx = apply_hooks c ?ctx1"
    if others: "\<forall>r\<in>set (or_empty (REQUIRES c)). r \<noteq> KEY c \<longrightarrow>
      (\<exists>ids'. obj_get (passed ctx) r = Some ids' \<and> ctx_id ctx \<in> set ids')"
  proof -
    have "\<exists>ids'. obj_get ?ps r = Some ids' \<and> ctx_id ctx \<in> set ids'"
      if "r \<in> set (or_empty (REQUIRES c))" for r
    proof (cases "r = KEY c")
      case True
      with own show ?thesis by simp
    next
      case False
      with others that show ?thesis by (simp add: obj_get_upd)
    qed
    then have "check_requires ?ps (ctx_id ctx) (KEY c) (or_empty (REQUIRES c)) = None"
      by (rule check_requires_None)
    with r show ?thesis by simp
  qed
  from a b show ?thesis by blast
qed

theorem pass_recorded_before_check_witness:
  "trigger_of (plain ''a'' (Some [''a'', ''b'']))
     \<lparr>entities = [], manifest = [(''x'', [])], passed = [(''b'', [''x'']), (''a'', [])],
      parent = [], ctx_id = ''x'', data = Some [(''a'', VStr ''v'')], components = []\<rparr> =
     Inr True \<and>
   obj_get [(''b'', [''x'']), (''a'', [])] ''a'' = Some ([] :: string list) \<and>
   obj_get [(''b'', [''x'']), (''a'', [])] ''b'' = Some [''x''] \<and>
   Component_resolve (plain ''a'' (Some [''a'', ''b'']))
     \<lparr>entities = [], manifest = [(''x'', [])], passed = [(''b'', [''x'']), (''a'', [])],
      parent = [], ctx_id = ''x'', data = Some [(''a'', VStr ''v'')], components = []\<rparr> =
   apply_hooks (plain ''a'' (Some [''a'', ''b'']))
     \<lparr>entities = [], manifest = [(''x'', [])], passed = [(''b'', [''x'']), (''a'', [''x''])],
      parent = [], ctx_id = ''x'', data = Some [(''a'', VStr ''v'')], components = []\<rparr>"
  using pass_recorded_before_check [of "plain ''a'' (Some [''a'', ''b''])"
     "\<lparr>entities = [], manifest = [(''x'', [])], passed = [(''b'', [''x'']), (''a'', [])],
      parent = [], ctx_id = ''x'', data = Some [(''a'', VStr ''v'')], components = []\<rparr>" "[]"]
  by (simp add: trigger_of_def plain_def obj_has_def obj_get_def obj_upd_def or_empty_def)

text \<open>
  C5, as the claim states it, fails. A component that requires its own key, on an entity
  whose trigger fires and for which no pass is recorded, does not fail with a
  requirement violation: the value is written.
\<close>

theorem self_requirement_not_violated:
  "Component_resolve (plain ''a'' (Some [''a'']))
     \<lparr>entities = [(''x'', [(''id'', VStr ''x''), (''a'', VStr ''v'')])], manifest = [(''x'', [])],
      passed = [(''a'', [])], parent = [], ctx_id = ''x'',
      data = Some [(''id'', VStr ''x''), (''a'', VStr ''v'')], components = []\<rparr> =
   Done
     \<lparr>entities = [(''x'', [(''id'', VStr ''x''), (''a'', VStr ''v'')])], manifest = [(''x'', [])],
      passed = [(''a'', [''x''])], parent = [(''a'', VStr ''v'')], ctx_id = ''x'',
      data = Some [(''id'', VStr ''x''), (''a'', VStr ''v'')], components = []\<rparr>"
  by (simp add: run_defs plain_def or_empty_def Let_def)

text \<open>
  C6, as the code has it. Hoisting and sinking are dependencies on keys. With pairwise
  distinct keys in the registry, in the order returned by \<open>Component.all()\<close> every component
  with \<open>HOIST\<close> set stands before every component without it, and every component with
  \<open>SINK\<close> set stands after every component without it.
\<close>

theorem hoist_sink_placement:
  assumes uniq: "distinct (map KEY list)"
    and i: "i < length (Component_all list)" and j: "j < length (Component_all list)"
  shows "(truthy (HOIST (Component_all list ! i)) \<and> \<not> truthy (HOIST (Component_all list ! j))
            \<longrightarrow> i < j) \<and>
         (truthy (SINK (Component_all list ! i)) \<and> \<not> truthy (SINK (Component_all list ! j))
            \<longrightarrow> j < i)"
proof -
  let ?order = "Component_all list"
  have d: "distinct (map KEY ?order)" using uniq by (rule Component_all_distinct)
  have same: "a = b" if "a < length ?order" "b < length ?order" "KEY (?order ! a) = KEY (?order ! b)" for a b
  proof -
    from that have "map KEY ?order ! a = map KEY ?order ! b"
      and "a < length (map KEY ?order)" and "b < length (map KEY ?order)" by simp_all
    with d show ?thesis using nth_eq_iff_index_eq by blast
  qed
  have mem: "?order ! i \<in> set list" "?order ! j \<in> set list"
    using Component_all_closed i j by blast+
  have "i < j" if "truthy (HOIST (?order ! i))" "\<not> truthy (HOIST (?order ! j))"
  proof -
    from mem(1) that have "KEY (?order ! i) \<in> set (dependencies list (?order ! j))"
      by (rule hoist_in_dependencies)
    with j obtain i' where i': "i' < j" and "KEY (?order ! i') = KEY (?order ! i)"
      using dependency_placed_before by blast
    with same [of i' i] i j have "i' = i" by simp
    with i' show ?thesis by simp
  qed
  moreover have "j < i" if "truthy (SINK (?order ! i))" "\<not> truthy (SINK (?order ! j))"
  proof -
    from mem(2) that(2) that(1) have "KEY (?order ! j) \<in> set (dependencies list (?order ! i))"
      by (rule sink_in_dependencies)
    with i obtain j' where j': "j' < i" and "KEY (?order ! j') = KEY (?order ! j)"
      using dependency_placed_before by blast
    with same [of j' j] i j have "j' = j" by simp
    with j' show ?thesis by simp
  qed
  ultimately show ?thesis by blast
qed

theorem hoist_sink_placement_witness:
  "distinct (map KEY [plain ''n'' None, (plain ''h'' None)\<lparr>HOIST := Some True\<rparr>,
      (plain ''s'' None)\<lparr>SINK := Some True\<rparr>]) \<and>
   Component_all [plain ''n'' None, (plain ''h'' None)\<lparr>HOIST := Some True\<rparr>,
      (plain ''s'' None)\<lparr>SINK := Some True\<rparr>] =
     [(plain ''h'' None)\<lparr>HOIST := Some True\<rparr>, plain ''n'' None,
      (plain ''s'' None)\<lparr>SINK := Some True\<rparr>] \<and>
   (0::nat) < 1 \<and> (1::nat) < 2"
  using hoist_sink_placement [of "[plain ''n'' None, (plain ''h'' None)\<lparr>HOIST := Some True\<rparr>,
      (plain ''s'' None)\<lparr>SINK := Some True\<rparr>]" 0 1]
    hoist_sink_placement [of "[plain ''n'' None, (plain ''h'' None)\<lparr>HOIST := Some True\<rparr>,
      (plain ''s'' None)\<lparr>SINK := Some True\<rparr>]" 2 1]
  by (simp add: eval_defs)

text \<open>
  C6, as the claim states it, fails. Of two hoisted components with the same key, the one
  registered first is placed after a component that is not hoisted; of two components with
  the same key that are not sunk, the one registered first is placed after a sunk component.
\<close>

theorem same_key_breaks_placement:
  "Component_all [(plain ''h'' None)\<lparr>HOIST := Some True\<rparr>,
      (plain ''h'' None)\<lparr>HOIST := Some True, OPTIONAL := Some [''x'']\<rparr>, plain ''n'' None] =
     [(plain ''h'' None)\<lparr>HOIST := Some True, OPTIONAL := Some [''x'']\<rparr>, plain ''n'' None,
      (plain ''h'' None)\<lparr>HOIST := Some True\<rparr>] \<and>
   truthy (HOIST ((plain ''h'' None)\<lparr>HOIST := Some True\<rparr>)) \<and>
   \<not> truthy (HOIST (plain ''n'' None)) \<and>
   Component_all [plain ''n'' None, (plain ''n'' None)\<lparr>OPTIONAL := Some [''x'']\<rparr>,
      (plain ''s'' None)\<lparr>SINK := Some True\<rparr>] =
     [(plain ''n'' None)\<lparr>OPTIONAL := Some [''x'']\<rparr>, (plain ''s'' None)\<lparr>SINK := Some True\<rparr>,
      plain ''n'' None] \<and>
   truthy (SINK ((plain ''s'' None)\<lparr>SINK := Some True\<rparr>)) \<and>
   \<not> truthy (SINK (plain ''n'' None))"
  by (simp add: eval_defs)

text \<open>
  C7. The first loop keeps the first record of an id and reports a later one, as the claim
  says, when the id names no member of \<open>Object.prototype\<close> (\<open>first_record_wins\<close>). It tests
  \<open>e.id in d\<close>, which also finds inherited members. With the id \<open>constructor\<close> the first
  record is taken for a duplicate and is not kept, and \<open>error\<close> throws out of
  \<open>resolveEntities\<close>, for what it finds in the sink under that key is the inherited
  function, which has no \<open>concat\<close>: no manifest is returned and no duplicate-id message is
  recorded. This happens with two records of the id and with a single one
  (\<open>inherited_id_throws\<close> has it for every inherited name). The same records with the id \<open>a\<close>
  give one entity built from the first record and the message with both names.
\<close>

theorem inherited_id_taken_for_duplicate:
  "resolveEntities_call [plain ''brief'' None]
     [ [(''id'', VStr ''constructor''), (''name'', VStr ''First''), (''brief'', VStr ''one'')],
       [(''id'', VStr ''constructor''), (''name'', VStr ''Second''), (''brief'', VStr ''two'')] ] [] =
     (Inl ''TypeError: errors[key].concat is not a function'', []) \<and>
   resolveEntities_call [plain ''brief'' None]
     [ [(''id'', VStr ''constructor''), (''name'', VStr ''First''), (''brief'', VStr ''one'')] ] [] =
     (Inl ''TypeError: errors[key].concat is not a function'', []) \<and>
   resolveEntities_call [plain ''brief'' None]
     [ [(''id'', VStr ''a''), (''name'', VStr ''First''), (''brief'', VStr ''one'')],
       [(''id'', VStr ''a''), (''name'', VStr ''Second''), (''brief'', VStr ''two'')] ] [] =
     (Inr [(''a'', [(''brief'', VStr ''one'')])],
      [(''a'', [''Duplicate id a'' @ [CHR 0x0A] @ ''Second'' @ [CHR 0x0A] @ ''First''])])"
proof -
  have o: "Component_all [plain ''brief'' None] = [plain ''brief'' None]"
    by (simp add: eval_defs)
  show ?thesis unfolding resolveEntities_call_def o
    by (simp add: call_defs run_defs plain_def or_empty_def Let_def)
qed

text \<open>
  C8, as the code has it. Let \<open>c\<close> be a component without hooks and with the key \<open>brief\<close>.
  On a record that does not have the key, the trigger does not fire and \<open>Component.resolve\<close>
  returns with the context as it was. On a record that has the key, when the resolver has
  given \<open>brief\<close> its passed-set and every other key of \<open>REQUIRES\<close> has the id of the entity,
  the call returns with the id recorded under \<open>brief\<close> and with the raw value, unchanged,
  assigned at \<open>brief\<close> in the entity (nothing is assigned when the raw value is \<open>undefined\<close>).
  Registered alone and without \<open>REQUIRES\<close> and \<open>WAIT_FOR\<close>, resolving the record
  \<open>{id: "x", brief: "short text"}\<close> returns a manifest whose entity \<open>x\<close> holds \<open>"short text"\<close>
  under \<open>brief\<close> and nothing else, and leaves the error sink as it was.
\<close>

theorem default_hooks_pass_through:
  assumes hooks: "trigger c = None" "getData c = None" "process c = None" "transform c = None"
    and key: "KEY c = ''brief''"
  shows "(data ctx = Some r \<and> \<not> obj_has r ''brief'' \<longrightarrow> Component_resolve c ctx = Done ctx) \<and>
         (data ctx = Some r \<and> obj_get r ''brief'' = Some v \<and>
          obj_get (passed ctx) ''brief'' = Some ids \<and>
          (\<forall>q\<in>set (or_empty (REQUIRES c)). q \<noteq> ''brief'' \<longrightarrow>
             (\<exists>ids'. obj_get (passed ctx) q = Some ids' \<and> ctx_id ctx \<in> set ids')) \<longrightarrow>
          Component_resolve c ctx =
            Done (ctx\<lparr>passed := obj_upd (passed ctx) ''brief'' (ids @ [ctx_id ctx]),
                      parent := (if v = VUndefined then parent ctx
                                 else obj_set (parent ctx) ''brief'' v)\<rparr>)) \<and>
         (or_empty (REQUIRES c) = [] \<and> or_empty (WAIT_FOR c) = [] \<longrightarrow>
          resolveEntities_call [c] [ [(''id'', VStr ''x''), (''brief'', VStr ''short text'')] ] errors =
            (Inr [(''x'', [(''brief'', VStr ''short text'')])], errors))"
proof -
  have absent: "Component_resolve c ctx = Done ctx" if "data ctx = Some r" "\<not> obj_has r ''brief''"
    using that hooks key by (simp add: Component_resolve_def trigger_of_def)
  have present: "Component_resolve c ctx =
      Done (ctx\<lparr>passed := obj_upd (passed ctx) ''brief'' (ids @ [ctx_id ctx]),
                parent := (if v = VUndefined then parent ctx else obj_set (parent ctx) ''brief'' v)\<rparr>)"
    if rec: "data ctx = Some r" and v: "obj_get r ''brief'' = Some v"
      and p: "obj_get (passed ctx) ''brief'' = Some ids"
      and others: "\<forall>q\<in>set (or_empty (REQUIRES c)). q \<noteq> ''brief'' \<longrightarrow>
             (\<exists>ids'. obj_get (passed ctx) q = Some ids' \<and> ctx_id ctx \<in> set ids')"
  proof -
    let ?ps = "obj_upd (passed ctx) ''brief'' (ids @ [ctx_id ctx])"
    from v have t: "trigger_of c ctx = Inr True"
      using hooks key rec by (simp add: trigger_of_def obj_has_get)
    from p have "obj_has (passed ctx) ''brief''" by (simp add: obj_has_get)
    then have own: "obj_get ?ps ''brief'' = Some (ids @ [ctx_id ctx])" by (simp add: obj_get_upd)
    have "\<exists>ids'. obj_get ?ps q = Some ids' \<and> ctx_id ctx \<in> set ids'"
      if "q \<in> set (or_empty (REQUIRES c))" for q
    proof (cases "q = ''brief''")
      case True
      with own show ?thesis by simp
    next
      case False
      with others that show ?thesis by (simp add: obj_get_upd)
    qed
    then have chk: "check_requires ?ps (ctx_id ctx) ''brief'' (or_empty (REQUIRES c)) = None"
      by (rule check_requires_None)
    show ?thesis
      using t p chk hooks key rec v
      by (simp add: Component_resolve_def apply_hooks_def getData_of_def process_of_def
          transform_of_def js_prop_def Let_def)
  qed
  have alone: "resolveEntities_call [c] [ [(''id'', VStr ''x''), (''brief'', VStr ''short text'')] ] errors =
      (Inr [(''x'', [(''brief'', VStr ''short text'')])], errors)"
    if deps: "or_empty (REQUIRES c) = []" "or_empty (WAIT_FOR c) = []"
  proof -
    have o: "Component_all [c] = [c]" using deps by (rule Component_all_single)
    have "resolveEntities [c] [ [(''id'', VStr ''x''), (''brief'', VStr ''short text'')] ] errors =
        ([(''x'', [(''brief'', VStr ''short text'')])], errors)"
      unfolding resolveEntities_def o
      using hooks key deps by (simp add: run_defs Let_def)
    moreover have "\<forall>e\<in>set [ [(''id'', VStr ''x''), (''brief'', VStr ''short text'')] ].
        to_string (js_prop e ''id'') \<notin> set inherited"
      by (simp add: js_prop_def obj_get_def inherited_def)
    ultimately show ?thesis by (simp add: resolveEntities_call_plain)
  qed
  from absent present alone show ?thesis by blast
qed

theorem default_hooks_pass_through_witness:
  "trigger (plain ''brief'' (Some [''kind''])) = None \<and>
   getData (plain ''brief'' (Some [''kind''])) = None \<and>
   process (plain ''brief'' (Some [''kind''])) = None \<and>
   transform (plain ''brief'' (Some [''kind''])) = None \<and>
   KEY (plain ''brief'' (Some [''kind''])) = ''brief'' \<and>
   \<not> obj_has [(''id'', VStr ''y''), (''kind'', VStr ''k'')] ''brief'' \<and>
   Component_resolve (plain ''brief'' (Some [''kind'']))
     \<lparr>entities = [], manifest = [], passed = [(''kind'', [''y'']), (''brief'', [])],
      parent = [(''kind'', VStr ''k'')], ctx_id = ''y'',
      data = Some [(''id'', VStr ''y''), (''kind'', VStr ''k'')], components = []\<rparr> =
   Done
     \<lparr>entities = [], manifest = [], passed = [(''kind'', [''y'']), (''brief'', [])],
      parent = [(''kind'', VStr ''k'')], ctx_id = ''y'',
      data = Some [(''id'', VStr ''y''), (''kind'', VStr ''k'')], components = []\<rparr> \<and>
   obj_get [(''id'', VStr ''x''), (''kind'', VStr ''k''), (''brief'', VStr ''short text'')] ''brief'' =
     Some (VStr ''short text'') \<and>
   obj_get [(''kind'', [''x'']), (''brief'', [])] ''brief'' = Some ([] :: string list) \<and>
   obj_get [(''kind'', [''x'']), (''brief'', [])] ''kind'' = Some [''x''] \<and>
   Component_resolve (plain ''brief'' (Some [''kind'']))
     \<lparr>entities = [], manifest = [], passed = [(''kind'', [''x'']), (''brief'', [])],
      parent = [(''kind'', VStr ''k'')], ctx_id = ''x'',
      data = Some [(''id'', VStr ''x''), (''kind'', VStr ''k''), (''brief'', VStr ''short text'')],
      components = []\<rparr> =
   Done
     \<lparr>entities = [], manifest = [], passed = [(''kind'', [''x'']), (''brief'', [''x''])],
      parent = [(''kind'', VStr ''k''), (''brief'', VStr ''short text'')], ctx_id = ''x'',
      data = Some [(''id'', VStr ''x''), (''kind'', VStr ''k''), (''brief'', VStr ''short text'')],
      components = []\<rparr> \<and>
   trigger (plain ''brief'' None) = None \<and> getData (plain ''brief'' None) = None \<and>
   process (plain ''brief'' None) = None \<and> transform (plain ''brief'' None) = None \<and>
   KEY (plain ''brief'' None) = ''brief'' \<and>
   or_empty (REQUIRES (plain ''brief'' None)) = [] \<and>
   or_empty (WAIT_FOR (plain ''brief'' None)) = [] \<and>
   resolveEntities_call [plain ''brief'' None]
     [ [(''id'', VStr ''x''), (''brief'', VStr ''short text'')] ] [] =
     (Inr [(''x'', [(''brief'', VStr ''short text'')])], [])"
  using default_hooks_pass_through [where c = "plain ''brief'' (Some [''kind''])"
      and ctx = "\<lparr>entities = [], manifest = [], passed = [(''kind'', [''y'']), (''brief'', [])],
        parent = [(''kind'', VStr ''k'')], ctx_id = ''y'',
        data = Some [(''id'', VStr ''y''), (''kind'', VStr ''k'')], components = []\<rparr>"
      and r = "[(''id'', VStr ''y''), (''kind'', VStr ''k'')]"]
    default_hooks_pass_through [where c = "plain ''brief'' (Some [''kind''])"
      and ctx = "\<lparr>entities = [], manifest = [], passed = [(''kind'', [''x'']), (''brief'', [])],
        parent = [(''kind'', VStr ''k'')], ctx_id = ''x'',
        data = Some [(''id'', VStr ''x''), (''kind'', VStr ''k''), (''brief'', VStr ''short text'')],
        components = []\<rparr>"
      and r = "[(''id'', VStr ''x''), (''kind'', VStr ''k''), (''brief'', VStr ''short text'')]"
      and v = "VStr ''short text''" and ids = "[]"]
    default_hooks_pass_through [where c = "plain ''brief'' None" and errors = "[]"]
  by (simp add: plain_def or_empty_def obj_has_def obj_get_def obj_upd_def obj_set_def
      obj_insert_def is_index_def is_digit_def)

text \<open>
  C8, as the claim states it, fails. A component without hooks and with the key \<open>brief\<close>
  that requires an unregistered key is not in the order: resolving the record
  \<open>{id: "x", brief: "short text"}\<close> returns the entity \<open>x\<close> without \<open>brief\<close>. And beside a
  second registered component whose trigger throws, the entity \<open>x\<close> is evicted: the manifest
  returned is empty.
\<close>

theorem passthrough_not_unconditional:
  "trigger (plain ''brief'' (Some [''zzz''])) = None \<and>
   getData (plain ''brief'' (Some [''zzz''])) = None \<and>
   process (plain ''brief'' (Some [''zzz''])) = None \<and>
   transform (plain ''brief'' (Some [''zzz''])) = None \<and>
   KEY (plain ''brief'' (Some [''zzz''])) = ''brief'' \<and>
   Component_all [plain ''brief'' (Some [''zzz''])] = [] \<and>
   resolveEntities_call [plain ''brief'' (Some [''zzz''])]
     [ [(''id'', VStr ''x''), (''brief'', VStr ''short text'')] ] [] =
     (Inr [(''x'', [])], []) \<and>
   resolveEntities_call
     [plain ''brief'' None, (plain ''other'' None)\<lparr>trigger := Some (\<lambda>ctx. Inl ''Error: boom'')\<rparr>]
     [ [(''id'', VStr ''x''), (''brief'', VStr ''short text'')] ] [] =
     (Inr [], [(''x'', [''Error: boom''])])"
proof -
  have o: "Component_all [plain ''brief'' (Some [''zzz''])] = []"
    by (simp add: eval_defs)
  have o2: "Component_all
      [plain ''brief'' None, (plain ''other'' None)\<lparr>trigger := Some (\<lambda>ctx. Inl ''Error: boom'')\<rparr>] =
      [(plain ''other'' None)\<lparr>trigger := Some (\<lambda>ctx. Inl ''Error: boom'')\<rparr>, plain ''brief'' None]"
    by (simp add: eval_defs)
  show ?thesis unfolding resolveEntities_call_def o o2
    by (simp add: call_defs run_defs plain_def or_empty_def ComponentInfo.truncate_def Let_def)
qed

text \<open>
  C9. When the trigger passes, the requirements hold and \<open>process\<close> returns \<open>undefined\<close>, the
  call returns without throwing and leaves the parent as it was; the resolver's state
  changes in the passed-set only (manifest, raw records and error sink are the same, so the
  entity is not evicted); and \<open>transform\<close> is not invoked: replacing it by any other function
  gives the same state.
\<close>

theorem absent_result_leaves_entity:
  assumes t: "trigger_of c (context_of comps (k, v) s) = Inr True"
    and p: "obj_get (st_passed s) (KEY c) = Some ids"
    and chk: "check_requires (obj_upd (st_passed s) (KEY c) (ids @ [k])) k (KEY c)
                (or_empty (REQUIRES c)) = None"
    and g: "getData_of c ((context_of comps (k, v) s)
                \<lparr>passed := obj_upd (st_passed s) (KEY c) (ids @ [k])\<rparr>) = Inr cData"
    and pr: "process_of c cData ((context_of comps (k, v) s)
                \<lparr>passed := obj_upd (st_passed s) (KEY c) (ids @ [k])\<rparr>) = Inr VUndefined"
    and entry: "(k, v) \<in> set (st_out s)" and dist: "distinct (keys (st_out s))"
  shows "Component_resolve c (context_of comps (k, v) s) =
           Done ((context_of comps (k, v) s)
                   \<lparr>passed := obj_upd (st_passed s) (KEY c) (ids @ [k])\<rparr>) \<and>
         resolve_entry c comps (k, v) s =
           s\<lparr>st_passed := obj_upd (st_passed s) (KEY c) (ids @ [k])\<rparr> \<and>
         (\<forall>t'. resolve_entry (c\<lparr>transform := t'\<rparr>) comps (k, v) s =
                resolve_entry c comps (k, v) s)"
proof -
  let ?ctx = "context_of comps (k, v) s"
  let ?ctx1 = "?ctx\<lparr>passed := obj_upd (st_passed s) (KEY c) (ids @ [k])\<rparr>"
  have f: "passed ?ctx = st_passed s" "ctx_id ?ctx = k" "parent ?ctx = v"
    by (simp_all add: context_of_def)
  have r: "Component_resolve c' ?ctx = Done ?ctx1"
    if "trigger_of c' = trigger_of c" "getData_of c' = getData_of c"
      "process_of c' = process_of c" "KEY c' = KEY c" "REQUIRES c' = REQUIRES c" for c'
    using that t p chk g pr f
    by (simp add: Component_resolve_def apply_hooks_def Let_def)
  have same: "obj_upd (st_out s) k v = st_out s"
    using dist entry by (rule obj_upd_same)
  have e: "resolve_entry c' comps (k, v) s =
      s\<lparr>st_passed := obj_upd (st_passed s) (KEY c) (ids @ [k])\<rparr>"
    if "Component_resolve c' ?ctx = Done ?ctx1" for c'
    using that same f by (simp add: resolve_entry_def)
  have 1: "Component_resolve c ?ctx = Done ?ctx1" by (rule r) simp_all
  have 2: "Component_resolve (c\<lparr>transform := t'\<rparr>) ?ctx = Done ?ctx1" for t'
    by (rule r) (simp_all add: hooks_transform_irrelevant)
  from 1 e [OF 1] e [OF 2] show ?thesis by simp
qed

theorem absent_result_leaves_entity_witness:
  "trigger_of silent (context_of [] (''x'', [(''name'', VStr ''X'')])
      \<lparr>st_d = [(''x'', [(''id'', VStr ''x''), (''note'', VStr ''n'')])],
       st_out = [(''x'', [(''name'', VStr ''X'')])], st_passed = [(''note'', [])],
       st_errors = []\<rparr>) = Inr True \<and>
   resolve_entry silent [] (''x'', [(''name'', VStr ''X'')])
      \<lparr>st_d = [(''x'', [(''id'', VStr ''x''), (''note'', VStr ''n'')])],
       st_out = [(''x'', [(''name'', VStr ''X'')])], st_passed = [(''note'', [])],
       st_errors = []\<rparr> =
      \<lparr>st_d = [(''x'', [(''id'', VStr ''x''), (''note'', VStr ''n'')])],
       st_out = [(''x'', [(''name'', VStr ''X'')])], st_passed = [(''note'', [''x''])],
       st_errors = []\<rparr>"
  using absent_result_leaves_entity [of silent "[]" "''x''" "[(''name'', VStr ''X'')]"
      "\<lparr>st_d = [(''x'', [(''id'', VStr ''x''), (''note'', VStr ''n'')])],
       st_out = [(''x'', [(''name'', VStr ''X'')])], st_passed = [(''note'', [])],
       st_errors = []\<rparr>" "[]" "VStr ''n''"]
  by (simp add: silent_def plain_def trigger_of_def getData_of_def process_of_def
      context_of_def obj_get_def obj_has_def obj_upd_def js_prop_def or_empty_def keys_def)

text \<open>
  C10, as the code has it. A registered component that names, in \<open>REQUIRES\<close> or \<open>WAIT_FOR\<close>,
  a key that no registered component has is absent from the order returned by
  \<open>Component.all()\<close>. When the keys of the registry are pairwise distinct, so is every
  component that depends on it, directly or through a chain, by any dependency that
  \<open>Component.dependencies\<close> computes. \<open>Component_all\<close> is a total function into lists: there
  is no failure value, and the resolver reads the registry through this order only, so the
  component runs on no entity. Nothing is reported about it: every message of the error
  sink after a call of \<open>resolveEntities\<close> was put there by the first loop (a duplicate id)
  or thrown by a component that is in the order, and the one value such a call throws is
  that of the first loop.
\<close>

theorem unregistered_dependency_omits:
  assumes c: "c \<in> set list"
    and k: "k \<in> set (or_empty (REQUIRES c)) \<union> set (or_empty (WAIT_FOR c))"
    and unreg: "k \<notin> KEY ` set list"
  shows "c \<notin> set (Component_all list) \<and>
         (distinct (map KEY list) \<longrightarrow>
            (\<forall>d. depends_on list c d \<longrightarrow> d \<notin> set (Component_all list))) \<and>
         (\<forall>ent errors key m.
            m \<in> set (errors_at (snd (resolveEntities_call list ent errors)) key) \<longrightarrow>
            m \<in> set (errors_at (snd (first_loop ent [] errors)) key) \<or>
            thrown_by (Component_all list) m) \<and>
         (\<forall>ent errors t.
            fst (resolveEntities_call list ent errors) = Inl t \<longrightarrow> t = not_a_function)"
proof -
  let ?order = "Component_all list"
  have c_out: "c \<notin> set ?order"
  proof
    assume "c \<in> set ?order"
    then obtain j where j: "j < length ?order" and cj: "?order ! j = c"
      by (auto simp: in_set_conv_nth)
    from k have "k \<in> set (dependencies list (?order ! j))"
      unfolding cj by (rule declared_in_dependencies)
    with j obtain i where "KEY (?order ! i) = k" and "?order ! i \<in> set list"
      using dependency_placed_before by blast
    with unreg show False by blast
  qed
  have dependents: "d \<notin> set ?order" if uniq: "distinct (map KEY list)" and dep: "depends_on list c d" for d
  proof -
    have blocked: "e \<notin> set ?order"
      if d: "d \<in> set list" "d \<notin> set ?order" and e: "KEY d \<in> set (dependencies list e)" for d e
    proof
      assume "e \<in> set ?order"
      then obtain j where j: "j < length ?order" and ej: "?order ! j = e"
        by (auto simp: in_set_conv_nth)
      from e have "KEY d \<in> set (dependencies list (?order ! j))"
        unfolding ej .
      with j obtain i where ij: "i < j" and ki: "KEY (?order ! i) = KEY d"
        and mi: "?order ! i \<in> set list"
        using dependency_placed_before by blast
      from uniq mi d(1) ki have "?order ! i = d" by (rule distinct_map_eq)
      moreover from ij j have "?order ! i \<in> set ?order" by simp
      ultimately show False using d(2) by simp
    qed
    from dep have "d \<in> set list \<and> d \<notin> set ?order"
    proof induction
      case (direct d)
      with blocked [OF c c_out] show ?case by blast
    next
      case (step d e)
      with blocked [of d e] show ?case by blast
    qed
    then show ?thesis by simp
  qed
  have quiet: "(\<forall>ent errors key m.
      m \<in> set (errors_at (snd (resolveEntities_call list ent errors)) key) \<longrightarrow>
      m \<in> set (errors_at (snd (first_loop ent [] errors)) key) \<or>
      thrown_by (Component_all list) m)"
    using errors_origin_call by blast
  have throws: "(\<forall>ent errors t.
      fst (resolveEntities_call list ent errors) = Inl t \<longrightarrow> t = not_a_function)"
    using call_throws_only by blast
  from c_out dependents quiet throws show ?thesis by blast
qed

theorem unregistered_dependency_omits_witness:
  "(plain ''c'' (Some [''zzz'']))\<lparr>HOIST := Some True\<rparr> \<in>
     set [(plain ''c'' (Some [''zzz'']))\<lparr>HOIST := Some True\<rparr>, plain ''n'' None,
          plain ''e'' (Some [''n''])] \<and>
   ''zzz'' \<in> set (or_empty (REQUIRES ((plain ''c'' (Some [''zzz'']))\<lparr>HOIST := Some True\<rparr>))) \<union>
             set (or_empty (WAIT_FOR ((plain ''c'' (Some [''zzz'']))\<lparr>HOIST := Some True\<rparr>))) \<and>
   ''zzz'' \<notin> KEY ` set [(plain ''c'' (Some [''zzz'']))\<lparr>HOIST := Some True\<rparr>, plain ''n'' None,
          plain ''e'' (Some [''n''])] \<and>
   distinct (map KEY [(plain ''c'' (Some [''zzz'']))\<lparr>HOIST := Some True\<rparr>, plain ''n'' None,
          plain ''e'' (Some [''n''])]) \<and>
   depends_on [(plain ''c'' (Some [''zzz'']))\<lparr>HOIST := Some True\<rparr>, plain ''n'' None,
          plain ''e'' (Some [''n''])]
     ((plain ''c'' (Some [''zzz'']))\<lparr>HOIST := Some True\<rparr>) (plain ''n'' None) \<and>
   depends_on [(plain ''c'' (Some [''zzz'']))\<lparr>HOIST := Some True\<rparr>, plain ''n'' None,
          plain ''e'' (Some [''n''])]
     ((plain ''c'' (Some [''zzz'']))\<lparr>HOIST := Some True\<rparr>) (plain ''e'' (Some [''n''])) \<and>
   (plain ''c'' (Some [''zzz'']))\<lparr>HOIST := Some True\<rparr> \<notin>
     set (Component_all [(plain ''c'' (Some [''zzz'']))\<lparr>HOIST := Some True\<rparr>, plain ''n'' None,
          plain ''e'' (Some [''n''])]) \<and>
   plain ''n'' None \<notin>
     set (Component_all [(plain ''c'' (Some [''zzz'']))\<lparr>HOIST := Some True\<rparr>, plain ''n'' None,
          plain ''e'' (Some [''n''])]) \<and>
   plain ''e'' (Some [''n'']) \<notin>
     set (Component_all [(plain ''c'' (Some [''zzz'']))\<lparr>HOIST := Some True\<rparr>, plain ''n'' None,
          plain ''e'' (Some [''n''])])"
proof -
  let ?c = "(plain ''c'' (Some [''zzz'']))\<lparr>HOIST := Some True\<rparr>"
  let ?L = "[?c, plain ''n'' None, plain ''e'' (Some [''n''])]"
  have h1: "distinct (map KEY ?L)" by (simp add: plain_def)
  have h2: "?c \<in> set ?L" by simp
  have h3: "''zzz'' \<in> set (or_empty (REQUIRES ?c)) \<union> set (or_empty (WAIT_FOR ?c))"
    by (simp add: plain_def or_empty_def)
  have h4: "''zzz'' \<notin> KEY ` set ?L" by (simp add: plain_def)
  have h5: "depends_on ?L ?c (plain ''n'' None)"
    by (rule depends_on.direct) (simp_all add: eval_defs)
  from h5 have h6: "depends_on ?L ?c (plain ''e'' (Some [''n'']))"
    by (rule depends_on.step) (simp_all add: eval_defs)
  note t = unregistered_dependency_omits [OF h2 h3 h4]
  from t have c: "?c \<notin> set (Component_all ?L)"
    by (rule conjunct1)
  from t h1 h5 have n: "plain ''n'' None \<notin> set (Component_all ?L)"
    by blast
  from t h1 h6 have e: "plain ''e'' (Some [''n'']) \<notin> set (Component_all ?L)"
    by blast
  from h1 h2 h3 h4 h5 h6 c n e show ?thesis by simp
qed

text \<open>
  C10, as the claim states it, fails. Of two registered components with the key \<open>c\<close>, the
  first names the unregistered key \<open>zzz\<close> and is left out; the second is placed, and with it
  the component that requires \<open>c\<close>, which depends on the first by its key.
\<close>

theorem dependent_of_same_key_placed:
  "''zzz'' \<in> set (or_empty (REQUIRES (plain ''c'' (Some [''zzz''])))) \<and>
   ''zzz'' \<notin> KEY ` set [plain ''c'' (Some [''zzz'']), plain ''c'' None, plain ''d'' (Some [''c''])] \<and>
   depends_on [plain ''c'' (Some [''zzz'']), plain ''c'' None, plain ''d'' (Some [''c''])]
     (plain ''c'' (Some [''zzz''])) (plain ''d'' (Some [''c''])) \<and>
   Component_all [plain ''c'' (Some [''zzz'']), plain ''c'' None, plain ''d'' (Some [''c''])] =
     [plain ''c'' None, plain ''d'' (Some [''c''])]"
proof -
  have "depends_on [plain ''c'' (Some [''zzz'']), plain ''c'' None, plain ''d'' (Some [''c''])]
     (plain ''c'' (Some [''zzz''])) (plain ''d'' (Some [''c'']))"
    by (rule depends_on.direct) (simp_all add: eval_defs)
  then show ?thesis by (simp add: eval_defs)
qed

end
